theory Spec2Isabelle
  imports Main
begin

section \<open>The chained hash table of hashmap.h\<close>

text \<open>
  The development follows the C++ class templates \<^verbatim>\<open>HashMap<K, V, F>\<close>,
  \<^verbatim>\<open>HashMapIter<K, V, F>\<close> and \<^verbatim>\<open>HashMap<K, V, F>::Iterator\<close>.

  \<^item> A value of type \<^verbatim>\<open>Element *\<close> is either \<^verbatim>\<open>nullptr\<close> or points to an element
    that the holder of the pointer owns exclusively (a bucket slot owns the head of its
    chain, every element owns its successor). Such a pointer is a term of the datatype
    \<open>ElementPtr\<close>: the constructor \<open>Element\<close> carries the fields \<^verbatim>\<open>key\<close>, \<^verbatim>\<open>value\<close> and
    \<^verbatim>\<open>next\<close> of the element pointed to. The source never stores one element pointer in
    two places: every element comes from a \<^verbatim>\<open>new\<close> in \<^verbatim>\<open>insert\<close> or \<^verbatim>\<open>resize\<close>, the copy
    operations go through \<^verbatim>\<open>insert\<close>, and the move operations reset the pointers of the
    source object.
  \<^item> \<^verbatim>\<open>new T *[n]\<close> default-initialises its slots: a slot holds an indeterminate value
    until it is first written. Reading such a slot is undefined behaviour.
  \<^item> A pointer to an array is null, points to a live array, or dangles after
    \<^verbatim>\<open>delete []\<close>.
  \<^item> A method call returns normally with a result and the state it leaves, throws an
    exception and leaves a state, or has undefined behaviour.
  \<^item> The hash functor \<open>F\<close> is a parameter of every operation; its \<^verbatim>\<open>unsigned\<close> result is
    read as a natural number. Capacities are natural numbers below \<open>2^32\<close>, so that the
    \<^verbatim>\<open>unsigned\<close> loop counters of the source do not wrap (the loops of
    \<^verbatim>\<open>allocateTableAndMutexes\<close> count with \<^verbatim>\<open>unsigned\<close> themselves and do not end on a
    larger capacity).
  \<^item> Allocation succeeds (the source lets \<^verbatim>\<open>std::bad_alloc\<close> end the program).
  \<^item> Calls are sequential: a \<^verbatim>\<open>std::lock_guard\<close> acquires the mutex of a bucket and
    releases it on every exit path, so between calls every mutex is unlocked. What is
    kept of a mutex is whether the pointer to it is valid.
  \<^item> The copy operations are about two objects at once. For them the elements are
    also modelled as cells of a memory with addresses, in which two pointers can meet; the
    tables of the first view are what the cells of an object hold.
\<close>

subsection \<open>Data\<close>

datatype ('k, 'v) ElementPtr =
  nullptr
| Element (getKey: 'k) (getValue: 'v) (nextp: "('k, 'v) ElementPtr")

datatype 'a cell = Indeterminate | Value 'a

datatype 'a arrayptr = nullarray | Array "'a cell list" | Dangling

datatype mutex = Mutex

record ('k, 'v) HashMap =
  m_size :: nat
  m_table :: "('k, 'v) ElementPtr arrayptr"
  m_mutexes :: "mutex arrayptr"

datatype exception = out_of_range

datatype ('a, 's) outcome = Return 'a 's | Throw exception 's | Undefined

subsection \<open>Memory access\<close>

text \<open>\<^verbatim>\<open>a[i]\<close> read as an rvalue.\<close>

definition load :: "'a arrayptr \<Rightarrow> nat \<Rightarrow> 'a option" where
  "load a i =
     (case a of
        Array cs \<Rightarrow>
          (if i < length cs then (case cs ! i of Indeterminate \<Rightarrow> None | Value x \<Rightarrow> Some x)
           else None)
      | _ \<Rightarrow> None)"

text \<open>\<^verbatim>\<open>a[i] = x\<close>, after a successful read of the same slot.\<close>

definition store :: "'a arrayptr \<Rightarrow> nat \<Rightarrow> 'a \<Rightarrow> 'a arrayptr" where
  "store a i x = (case a of Array cs \<Rightarrow> Array (cs[i := Value x]) | _ \<Rightarrow> a)"

text \<open>\<^verbatim>\<open>std::lock_guard<std::mutex> lock(*_mutexes[i])\<close>.\<close>

definition lock_guard :: "mutex arrayptr \<Rightarrow> nat \<Rightarrow> bool" where
  "lock_guard ms i = (load ms i \<noteq> None)"

subsection \<open>Construction\<close>

definition HashMap_default :: "('k, 'v) HashMap" where
  "HashMap_default = \<lparr>m_size = 0, m_table = nullarray, m_mutexes = nullarray\<rparr>"

text \<open>
  \<^verbatim>\<open>allocateTableAndMutexes\<close>: the first loop stores a new mutex in every slot of the
  mutex array, the second one stores \<^verbatim>\<open>nullptr\<close> in every slot of the table.
\<close>

definition allocateTableAndMutexes :: "nat \<Rightarrow> ('k, 'v) HashMap" where
  "allocateTableAndMutexes sz =
     \<lparr>m_size = sz,
      m_table = Array (replicate sz (Value nullptr)),
      m_mutexes = Array (replicate sz (Value Mutex))\<rparr>"

definition HashMap_sized :: "nat \<Rightarrow> ('k, 'v) HashMap" where
  "HashMap_sized sz = allocateTableAndMutexes sz"

definition getSize :: "('k, 'v) HashMap \<Rightarrow> nat" where
  "getSize t = m_size t"

subsection \<open>Keyed operations\<close>

text \<open>\<^verbatim>\<open>hash\<close>: \<^verbatim>\<open>hashFunctor(key) % _size\<close>; the remainder by zero is undefined.\<close>

definition hash :: "('k \<Rightarrow> nat) \<Rightarrow> ('k, 'v) HashMap \<Rightarrow> 'k \<Rightarrow> nat option" where
  "hash F t key = (if m_size t = 0 then None else Some (F key mod m_size t))"

text \<open>
  The prologue shared by \<^verbatim>\<open>exists\<close>, \<^verbatim>\<open>lookup\<close>, \<^verbatim>\<open>insert\<close> and \<^verbatim>\<open>remove\<close>: compute
  the index, lock the bucket's mutex, read the head of the chain.
\<close>

definition bucket :: "('k \<Rightarrow> nat) \<Rightarrow> ('k, 'v) HashMap \<Rightarrow> 'k \<Rightarrow> (nat \<times> ('k, 'v) ElementPtr) option" where
  "bucket F t key =
     (case hash F t key of
        None \<Rightarrow> None
      | Some idx \<Rightarrow>
          (if lock_guard (m_mutexes t) idx
           then (case load (m_table t) idx of None \<Rightarrow> None | Some tmp \<Rightarrow> Some (idx, tmp))
           else None))"

text \<open>\<^verbatim>\<open>while (tmp != nullptr && tmp->key != key) tmp = tmp->next;\<close>\<close>

fun scan :: "'k \<Rightarrow> ('k, 'v) ElementPtr \<Rightarrow> ('k, 'v) ElementPtr" where
  "scan key nullptr = nullptr"
| "scan key (Element k v n) = (if k \<noteq> key then scan key n else Element k v n)"

definition HashMap_exists :: "('k \<Rightarrow> nat) \<Rightarrow> 'k \<Rightarrow> ('k, 'v) HashMap \<Rightarrow> (bool, ('k, 'v) HashMap) outcome" where
  "HashMap_exists F key t =
     (case bucket F t key of
        None \<Rightarrow> Undefined
      | Some (idx, tmp) \<Rightarrow> Return (scan key tmp \<noteq> nullptr) t)"

definition HashMap_lookup :: "('k \<Rightarrow> nat) \<Rightarrow> 'k \<Rightarrow> ('k, 'v) HashMap \<Rightarrow> ('v, ('k, 'v) HashMap) outcome" where
  "HashMap_lookup F key t =
     (case bucket F t key of
        None \<Rightarrow> Undefined
      | Some (idx, tmp) \<Rightarrow>
          (case scan key tmp of
             nullptr \<Rightarrow> Throw out_of_range t
           | Element k v n \<Rightarrow> Return v t))"

text \<open>
  The body of \<^verbatim>\<open>insert\<close> on the chain \<open>tmp\<close>. On an empty bucket the new element becomes
  the head. Otherwise
  \<^verbatim>\<open>while (tmp->next != nullptr && tmp->key != key) tmp = tmp->next;\<close>
  stops at the first element with the key or at the last element, whose value is
  overwritten or whose \<^verbatim>\<open>next\<close> receives the new element.
\<close>

fun insert_chain :: "'k \<Rightarrow> 'v \<Rightarrow> ('k, 'v) ElementPtr \<Rightarrow> ('k, 'v) ElementPtr" where
  "insert_chain key val nullptr = Element key val nullptr"
| "insert_chain key val (Element k v n) =
     (if n \<noteq> nullptr \<and> k \<noteq> key then Element k v (insert_chain key val n)
      else if k = key then Element k val n
      else Element k v (Element key val nullptr))"

definition HashMap_insert :: "('k \<Rightarrow> nat) \<Rightarrow> 'k \<Rightarrow> 'v \<Rightarrow> ('k, 'v) HashMap \<Rightarrow> (unit, ('k, 'v) HashMap) outcome" where
  "HashMap_insert F key val t =
     (case bucket F t key of
        None \<Rightarrow> Undefined
      | Some (idx, tmp) \<Rightarrow>
          Return () (t\<lparr>m_table := store (m_table t) idx (insert_chain key val tmp)\<rparr>))"

text \<open>
  \<^verbatim>\<open>remove\<close>: the scan keeps the predecessor \<^verbatim>\<open>prev\<close> of \<^verbatim>\<open>tmp\<close>. When an element is found,
  the slot that pointed to it (the bucket for the head, \<^verbatim>\<open>prev->next\<close> otherwise)
  receives \<^verbatim>\<open>tmp->next\<close>, and the element is deleted.
\<close>

fun unlink :: "'k \<Rightarrow> ('k, 'v) ElementPtr \<Rightarrow> ('k, 'v) ElementPtr" where
  "unlink key nullptr = nullptr"
| "unlink key (Element k v n) = (if k \<noteq> key then Element k v (unlink key n) else n)"

definition HashMap_remove :: "('k \<Rightarrow> nat) \<Rightarrow> 'k \<Rightarrow> ('k, 'v) HashMap \<Rightarrow> (unit, ('k, 'v) HashMap) outcome" where
  "HashMap_remove F key t =
     (case bucket F t key of
        None \<Rightarrow> Undefined
      | Some (idx, tmp) \<Rightarrow>
          (if scan key tmp = nullptr then Throw out_of_range t
           else Return () (t\<lparr>m_table := store (m_table t) idx (unlink key tmp)\<rparr>)))"

subsection \<open>Resizing\<close>

text \<open>\<^verbatim>\<open>new T *[n]\<close>: no slot has been written yet.\<close>

definition new_array :: "nat \<Rightarrow> 'a arrayptr" where
  "new_array n = Array (replicate n Indeterminate)"

text \<open>\<^verbatim>\<open>delete [] a\<close>: deleting a null pointer does nothing, deleting twice is undefined.\<close>

definition delete_array :: "'a arrayptr \<Rightarrow> 'a arrayptr option" where
  "delete_array a = (case a of nullarray \<Rightarrow> Some nullarray | Array cs \<Rightarrow> Some Dangling | Dangling \<Rightarrow> None)"

text \<open>
  The inner loop of \<^verbatim>\<open>resize\<close> over one old chain \<open>tmp\<close>: every element is re-hashed modulo
  \<open>newSize\<close> and put into \<open>newTable\<close> by the find-or-append code of \<^verbatim>\<open>insert\<close>, which the
  source writes out a second time; the old element is deleted.
\<close>

fun rehash_chain ::
  "('k \<Rightarrow> nat) \<Rightarrow> nat \<Rightarrow> ('k, 'v) ElementPtr \<Rightarrow> ('k, 'v) ElementPtr arrayptr
     \<Rightarrow> ('k, 'v) ElementPtr arrayptr option" where
  "rehash_chain F newSize nullptr newTable = Some newTable"
| "rehash_chain F newSize (Element k v n) newTable =
     (if newSize = 0 then None
      else (case load newTable (F k mod newSize) of
              None \<Rightarrow> None
            | Some p \<Rightarrow>
                rehash_chain F newSize n
                  (store newTable (F k mod newSize)
                     (if p = nullptr then Element k v nullptr else insert_chain k v p))))"

text \<open>
  \<^verbatim>\<open>delete _mutexes[i]\<close>. Destroying a mutex that a \<^verbatim>\<open>std::lock_guard\<close> still owns is
  undefined; the argument says whether the guard of the bucket is still in scope.
\<close>

definition delete_mutex :: "bool \<Rightarrow> bool" where
  "delete_mutex owned = (\<not> owned)"

text \<open>
  The outer loop \<^verbatim>\<open>for (unsigned i = 0; i < _size; ++i)\<close> of \<^verbatim>\<open>resize\<close>. The guard is
  declared at the top of the loop body; an empty bucket is left by \<^verbatim>\<open>continue\<close>; after
  the chain of a non-empty bucket the mutex is deleted at the end of the same body,
  where the guard is still in scope.
\<close>

function resize_buckets ::
  "('k \<Rightarrow> nat) \<Rightarrow> nat \<Rightarrow> ('k, 'v) HashMap \<Rightarrow> nat \<Rightarrow> ('k, 'v) ElementPtr arrayptr
     \<Rightarrow> ('k, 'v) ElementPtr arrayptr option" where
  "resize_buckets F newSize t i newTable =
     (if i < m_size t then
        (if lock_guard (m_mutexes t) i then
           (case load (m_table t) i of
              None \<Rightarrow> None
            | Some tmp \<Rightarrow>
                (if tmp = nullptr then resize_buckets F newSize t (Suc i) newTable
                 else
                   (case rehash_chain F newSize tmp newTable of
                      None \<Rightarrow> None
                    | Some newTable' \<Rightarrow>
                        (if delete_mutex True then resize_buckets F newSize t (Suc i) newTable'
                         else None))))
         else None)
      else Some newTable)"
  by pat_completeness auto
termination
  by (relation "measure (\<lambda>(F, newSize, t, i, newTable). m_size t - i)") auto

declare resize_buckets.simps [simp del]

text \<open>
  \<^verbatim>\<open>resize\<close>: the new table comes from \<^verbatim>\<open>new Element *[newSize]\<close> and is read by the loops
  as it is; after the loops the old arrays are deleted, and the new mutex array comes
  from \<^verbatim>\<open>new std::mutex *[newSize]\<close> and is installed as it is.
\<close>

definition HashMap_resize :: "('k \<Rightarrow> nat) \<Rightarrow> nat \<Rightarrow> ('k, 'v) HashMap \<Rightarrow> (unit, ('k, 'v) HashMap) outcome" where
  "HashMap_resize F newSize t =
     (case resize_buckets F newSize t 0 (new_array newSize) of
        None \<Rightarrow> Undefined
      | Some newTable \<Rightarrow>
          (if delete_array (m_table t) = None \<or> delete_array (m_mutexes t) = None then Undefined
           else Return () \<lparr>m_size = newSize, m_table = newTable, m_mutexes = new_array newSize\<rparr>))"

subsection \<open>Destruction, copy and move\<close>

text \<open>
  The loop of \<^verbatim>\<open>destroyTableAndMutexes\<close>: every bucket is locked and read inside an inner
  block; an empty bucket is left by \<^verbatim>\<open>continue\<close>; the chain of a non-empty one is freed,
  and its mutex is deleted after the inner block, where the guard is gone.
\<close>

function destroy_buckets :: "('k, 'v) HashMap \<Rightarrow> nat \<Rightarrow> bool" where
  "destroy_buckets t i =
     (if i < m_size t then
        (if lock_guard (m_mutexes t) i then
           (case load (m_table t) i of
              None \<Rightarrow> False
            | Some tmp \<Rightarrow>
                (if tmp = nullptr then destroy_buckets t (Suc i)
                 else if delete_mutex False then destroy_buckets t (Suc i)
                 else False))
         else False)
      else True)"
  by pat_completeness auto
termination
  by (relation "measure (\<lambda>(t, i). m_size t - i)") auto

declare destroy_buckets.simps [simp del]

text \<open>
  \<^verbatim>\<open>destroyTableAndMutexes\<close> returns at once on a null table pointer. Otherwise it leaves
  \<^verbatim>\<open>_size == 0\<close> and both array pointers dangling.
\<close>

definition destroyTableAndMutexes :: "('k, 'v) HashMap \<Rightarrow> ('k, 'v) HashMap option" where
  "destroyTableAndMutexes t =
     (if m_table t = nullarray then Some t
      else if destroy_buckets t 0 then
        (case (delete_array (m_table t), delete_array (m_mutexes t)) of
           (Some a, Some b) \<Rightarrow> Some \<lparr>m_size = 0, m_table = a, m_mutexes = b\<rparr>
         | _ \<Rightarrow> None)
      else None)"

text \<open>
  Several tables live side by side in a store of objects, which gives
  \<^verbatim>\<open>this != &other\<close> its meaning.
\<close>

type_synonym ('k, 'v) objects = "nat \<Rightarrow> ('k, 'v) HashMap"

text \<open>
  The loops of the copy constructor and of the copy assignment operator, on chains as
  values: every element of \<open>other\<close> is inserted into \<open>this\<close>. The two operations
  themselves are \<open>heap_copy_construct\<close> and \<open>heap_copy_assign\<close> below.
\<close>

fun copy_chain :: "('k \<Rightarrow> nat) \<Rightarrow> ('k, 'v) ElementPtr \<Rightarrow> ('k, 'v) HashMap \<Rightarrow> ('k, 'v) HashMap option" where
  "copy_chain F nullptr this = Some this"
| "copy_chain F (Element k v n) this =
     (case HashMap_insert F k v this of
        Return u this' \<Rightarrow> copy_chain F n this'
      | Throw e this' \<Rightarrow> None
      | Undefined \<Rightarrow> None)"

function copy_buckets ::
  "('k \<Rightarrow> nat) \<Rightarrow> ('k, 'v) HashMap \<Rightarrow> nat \<Rightarrow> ('k, 'v) HashMap \<Rightarrow> ('k, 'v) HashMap option" where
  "copy_buckets F other i this =
     (if i < m_size other then
        (if lock_guard (m_mutexes other) i then
           (case load (m_table other) i of
              None \<Rightarrow> None
            | Some tmp \<Rightarrow>
                (case copy_chain F tmp this of
                   None \<Rightarrow> None
                 | Some this' \<Rightarrow> copy_buckets F other (Suc i) this'))
         else None)
      else Some this)"
  by pat_completeness auto
termination
  by (relation "measure (\<lambda>(F, other, i, this). m_size other - i)") auto

declare copy_buckets.simps [simp del]

text \<open>
  The move constructor takes the three fields of \<open>other\<close> and resets them there.
\<close>

definition move_construct :: "('k, 'v) objects \<Rightarrow> nat \<Rightarrow> nat \<Rightarrow> ('k, 'v) objects" where
  "move_construct s this other =
     (s(this := \<lparr>m_size = m_size (s other), m_table = m_table (s other),
                 m_mutexes = m_mutexes (s other)\<rparr>))
       (other := \<lparr>m_size = 0, m_table = nullarray, m_mutexes = nullarray\<rparr>)"

text \<open>
  The statements of the move assignment operator: under \<^verbatim>\<open>if (this != &other)\<close> it
  destroys the own arrays and then does what the move constructor does.
\<close>

definition move_assign_body :: "('k, 'v) objects \<Rightarrow> nat \<Rightarrow> nat \<Rightarrow> ('k, 'v) objects option" where
  "move_assign_body s this other =
     (if this \<noteq> other then
        (case destroyTableAndMutexes (s this) of
           None \<Rightarrow> None
         | Some d \<Rightarrow> Some (move_construct (s(this := d)) this other))
      else Some s)"

text \<open>
  \<^verbatim>\<open>HashMap& operator=(HashMap &&other)\<close> has no \<^verbatim>\<open>return\<close> statement (the copy assignment
  operator ends with \<^verbatim>\<open>return *this\<close>): after the statements of the body, control flows
  off the end of a function that returns a value, which is undefined behaviour.
\<close>

definition move_assign :: "('k, 'v) objects \<Rightarrow> nat \<Rightarrow> nat \<Rightarrow> (unit, ('k, 'v) objects) outcome" where
  "move_assign s this other =
     (case move_assign_body s this other of
        None \<Rightarrow> Undefined
      | Some s' \<Rightarrow> Undefined)"

subsection \<open>Iteration\<close>

text \<open>
  \<^verbatim>\<open>HashMapIter\<close> and \<^verbatim>\<open>HashMap::Iterator\<close> hold the same three fields: the table they
  refer to (an argument below), the current element and a bucket index. The current
  element is a pointer into a chain of the table; what it points to is the rest of that
  chain.
\<close>

record ('k, 'v) Iter =
  i_curr :: "('k, 'v) ElementPtr"
  i_idx :: nat

text \<open>
  \<^verbatim>\<open>while (idx < size && table[idx] == nullptr) idx++;\<close> as in \<^verbatim>\<open>first\<close> and \<^verbatim>\<open>begin\<close>; the
  \<^verbatim>\<open>do ... while\<close> of \<^verbatim>\<open>next\<close> is this loop after one increment.
\<close>

function skip_empty :: "('k, 'v) HashMap \<Rightarrow> nat \<Rightarrow> nat option" where
  "skip_empty t idx =
     (if idx < m_size t then
        (case load (m_table t) idx of
           None \<Rightarrow> None
         | Some p \<Rightarrow> if p = nullptr then skip_empty t (Suc idx) else Some idx)
      else Some idx)"
  by pat_completeness auto
termination
  by (relation "measure (\<lambda>(t, idx). m_size t - idx)") auto

declare skip_empty.simps [simp del]

text \<open>\<^verbatim>\<open>if (idx < size) curr = table[idx]; else curr = nullptr;\<close>\<close>

definition position :: "('k, 'v) HashMap \<Rightarrow> nat \<Rightarrow> ('k, 'v) Iter option" where
  "position t idx =
     (if idx < m_size t then
        (case load (m_table t) idx of
           None \<Rightarrow> None
         | Some p \<Rightarrow> Some \<lparr>i_curr = p, i_idx = idx\<rparr>)
      else Some \<lparr>i_curr = nullptr, i_idx = idx\<rparr>)"

definition HashMapIter_first :: "('k, 'v) HashMap \<Rightarrow> ('k, 'v) Iter option" where
  "HashMapIter_first t = (case skip_empty t 0 of None \<Rightarrow> None | Some idx \<Rightarrow> position t idx)"

text \<open>\<^verbatim>\<open>HashMapIter::next\<close>; \<^verbatim>\<open>HashMap::Iterator::next\<close> has the same body.\<close>

definition HashMapIter_next :: "('k, 'v) HashMap \<Rightarrow> ('k, 'v) Iter \<Rightarrow> ('k, 'v) Iter option" where
  "HashMapIter_next t it =
     (case i_curr it of
        nullptr \<Rightarrow> Some it
      | Element k v n \<Rightarrow>
          (if n = nullptr then
             (case skip_empty t (Suc (i_idx it)) of None \<Rightarrow> None | Some idx \<Rightarrow> position t idx)
           else Some (it\<lparr>i_curr := n\<rparr>)))"

definition Iterator_next :: "('k, 'v) HashMap \<Rightarrow> ('k, 'v) Iter \<Rightarrow> ('k, 'v) Iter option" where
  "Iterator_next t it = HashMapIter_next t it"

definition isEnd :: "('k, 'v) Iter \<Rightarrow> bool" where
  "isEnd it = (i_curr it = nullptr)"

text \<open>
  \<^verbatim>\<open>begin\<close> finds the first non-empty bucket with a local counter and returns
  \<^verbatim>\<open>Iterator(this, first)\<close>, whose index is the default \<open>0\<close>. \<^verbatim>\<open>end\<close> is
  \<^verbatim>\<open>Iterator(this, nullptr)\<close>.
\<close>

definition HashMap_begin :: "('k, 'v) HashMap \<Rightarrow> ('k, 'v) Iter option" where
  "HashMap_begin t =
     (case skip_empty t 0 of
        None \<Rightarrow> None
      | Some i \<Rightarrow>
          (case position t i of
             None \<Rightarrow> None
           | Some it \<Rightarrow> Some \<lparr>i_curr = i_curr it, i_idx = 0\<rparr>))"

definition HashMap_end :: "('k, 'v) HashMap \<Rightarrow> ('k, 'v) Iter" where
  "HashMap_end t = \<lparr>i_curr = nullptr, i_idx = 0\<rparr>"

text \<open>
  The client loop over a cursor: visit the current element, advance, until the cursor
  is at the end. The result lists the visited pairs in order.
\<close>

fun entries :: "('k, 'v) ElementPtr \<Rightarrow> ('k \<times> 'v) list" where
  "entries nullptr = []"
| "entries (Element k v n) = (k, v) # entries n"

function visit_all :: "('k, 'v) HashMap \<Rightarrow> ('k, 'v) Iter \<Rightarrow> ('k \<times> 'v) list option" where
  "visit_all t it =
     (case i_curr it of
        nullptr \<Rightarrow> Some []
      | Element k v n \<Rightarrow>
          (case HashMapIter_next t it of
             None \<Rightarrow> None
           | Some it' \<Rightarrow> map_option ((#) (k, v)) (visit_all t it')))"
  by pat_completeness auto
termination
proof (relation "measures [\<lambda>(t, it). (if i_curr it = nullptr then 0 else Suc (m_size t - i_idx it)),
                           \<lambda>(t, it). length (entries (i_curr it))]", goal_cases)
  case 1
  show ?case by simp
next
  case (2 t it k v n it')
  have ge: "skip_empty t i = Some j \<Longrightarrow> i \<le> j" for i j
  proof (induction t i rule: skip_empty.induct)
    case (1 t idx)
    then show ?case
      by (subst (asm) (2) skip_empty.simps) (auto split: if_splits option.splits)
  qed
  show ?case
  proof (cases "n = nullptr")
    case False
    with 2 have "it' = it\<lparr>i_curr := n\<rparr>" by (simp add: HashMapIter_next_def)
    then have "i_curr it' = n" "i_idx it' = i_idx it" by simp_all
    then show ?thesis using False by (simp add: 2(1))
  next
    case True
    with 2 obtain j where j: "skip_empty t (Suc (i_idx it)) = Some j" and p: "position t j = Some it'"
      by (auto simp: HashMapIter_next_def split: option.splits)
    from ge [OF j] have lt: "i_idx it < j" by simp
    show ?thesis
    proof (cases "j < m_size t")
      case True
      with p have "i_idx it' = j" by (auto simp: position_def split: option.splits)
      moreover from True lt have "m_size t - j < m_size t - i_idx it" by simp
      ultimately show ?thesis by (simp add: 2(1))
    next
      case False
      with p have "i_curr it' = nullptr" by (auto simp: position_def)
      then show ?thesis by (simp add: 2(1))
    qed
  qed
qed

declare visit_all.simps [simp del]

subsection \<open>Elements as objects in memory\<close>

text \<open>
  The second view of the class, for the operations whose effect on two objects at once
  matters. An element is a cell of a memory, and \<^verbatim>\<open>Element *\<close> is an address or null:
  two pointers are equal when they hold the same address, and a write through one is
  seen through the other. \<^verbatim>\<open>new Element(key, value)\<close> takes the next address that was
  never used, \<^verbatim>\<open>delete\<close> empties the cell, and reading through a pointer to an empty cell
  is undefined. An object of the class is its three members, found under the number
  that stands for its own address; the two arrays are its own, since
  \<^verbatim>\<open>allocateTableAndMutexes\<close> takes them from \<^verbatim>\<open>new\<close> and only the move operations
  hand an array from one object to another.
\<close>

type_synonym addr = nat

record ('k, 'v) element =
  e_key :: 'k
  e_value :: 'v
  e_next :: "addr option"

record table =
  t_size :: nat
  t_table :: "addr option arrayptr"
  t_mutexes :: "mutex arrayptr"

record ('k, 'v) memory =
  cells :: "addr \<Rightarrow> ('k, 'v) element option"
  next_free :: addr
  tables :: "nat \<Rightarrow> table"

text \<open>\<^verbatim>\<open>new Element(key, value)\<close>; the constructor sets \<^verbatim>\<open>next\<close> to \<^verbatim>\<open>nullptr\<close>.\<close>

definition new_Element :: "'k \<Rightarrow> 'v \<Rightarrow> ('k, 'v) memory \<Rightarrow> addr \<times> ('k, 'v) memory" where
  "new_Element k v m =
     (next_free m,
      m\<lparr>cells := (cells m)(next_free m := Some \<lparr>e_key = k, e_value = v, e_next = None\<rparr>),
        next_free := Suc (next_free m)\<rparr>)"

text \<open>\<^verbatim>\<open>delete a\<close>.\<close>

definition delete_Element :: "addr \<Rightarrow> ('k, 'v) memory \<Rightarrow> ('k, 'v) memory" where
  "delete_Element a m = m\<lparr>cells := (cells m)(a := None)\<rparr>"

text \<open>\<^verbatim>\<open>_table[idx] = p\<close> in the object \<open>this\<close>.\<close>

definition set_bucket :: "nat \<Rightarrow> nat \<Rightarrow> addr option \<Rightarrow> ('k, 'v) memory \<Rightarrow> ('k, 'v) memory" where
  "set_bucket this idx p m =
     m\<lparr>tables := (tables m)(this := (tables m this)\<lparr>t_table := store (t_table (tables m this)) idx p\<rparr>)\<rparr>"

text \<open>The members that \<^verbatim>\<open>HashMap()\<close> sets, which are also those of a moved-from object.\<close>

definition heap_HashMap_default :: table where
  "heap_HashMap_default = \<lparr>t_size = 0, t_table = nullarray, t_mutexes = nullarray\<rparr>"

text \<open>\<^verbatim>\<open>allocateTableAndMutexes\<close> and \<^verbatim>\<open>getSize\<close> on the object \<open>this\<close>.\<close>

definition heap_allocateTableAndMutexes :: "nat \<Rightarrow> nat \<Rightarrow> ('k, 'v) memory \<Rightarrow> ('k, 'v) memory" where
  "heap_allocateTableAndMutexes this sz m =
     m\<lparr>tables := (tables m)(this :=
         \<lparr>t_size = sz,
          t_table = Array (replicate sz (Value None)),
          t_mutexes = Array (replicate sz (Value Mutex))\<rparr>)\<rparr>"

definition heap_getSize :: "nat \<Rightarrow> ('k, 'v) memory \<Rightarrow> nat" where
  "heap_getSize this m = t_size (tables m this)"

text \<open>The prologue of the keyed operations: index, lock, head of the chain.\<close>

definition heap_bucket ::
  "('k \<Rightarrow> nat) \<Rightarrow> ('k, 'v) memory \<Rightarrow> nat \<Rightarrow> 'k \<Rightarrow> (nat \<times> addr option) option" where
  "heap_bucket F m this key =
     (if t_size (tables m this) = 0 then None
      else if lock_guard (t_mutexes (tables m this)) (F key mod t_size (tables m this))
      then (case load (t_table (tables m this)) (F key mod t_size (tables m this)) of
              None \<Rightarrow> None
            | Some tmp \<Rightarrow> Some (F key mod t_size (tables m this), tmp))
      else None)"

text \<open>
  \<^verbatim>\<open>while (tmp != nullptr && tmp->key != key) tmp = tmp->next;\<close> The loop follows the
  pointers that it finds in the memory, so it is a partial function: on a cyclic chain
  it does not return, on a freed element it is undefined; both are the value \<open>None\<close>.
\<close>

partial_function (option) heap_scan ::
  "(addr \<Rightarrow> ('k, 'v) element option) \<Rightarrow> 'k \<Rightarrow> addr option \<Rightarrow> addr option option" where
  "heap_scan c key tmp =
     (case tmp of
        None \<Rightarrow> Some None
      | Some a \<Rightarrow>
          (case c a of
             None \<Rightarrow> None
           | Some e \<Rightarrow> if e_key e \<noteq> key then heap_scan c key (e_next e) else Some (Some a)))"

definition heap_lookup ::
  "('k \<Rightarrow> nat) \<Rightarrow> 'k \<Rightarrow> nat \<Rightarrow> ('k, 'v) memory \<Rightarrow> ('v, ('k, 'v) memory) outcome" where
  "heap_lookup F key this m =
     (case heap_bucket F m this key of
        None \<Rightarrow> Undefined
      | Some (idx, head) \<Rightarrow>
          (case heap_scan (cells m) key head of
             None \<Rightarrow> Undefined
           | Some None \<Rightarrow> Throw out_of_range m
           | Some (Some a) \<Rightarrow>
               (case cells m a of None \<Rightarrow> Undefined | Some e \<Rightarrow> Return (e_value e) m)))"

text \<open>
  \<^verbatim>\<open>insert\<close>: on an empty bucket the new element becomes the head. Otherwise
  \<^verbatim>\<open>while (tmp->next != nullptr && tmp->key != key) tmp = tmp->next;\<close> stops at an
  element, whose value is overwritten if it has the key and which gets the new element
  as successor if not.
\<close>

partial_function (option) heap_insert_stop ::
  "(addr \<Rightarrow> ('k, 'v) element option) \<Rightarrow> 'k \<Rightarrow> addr \<Rightarrow> addr option" where
  "heap_insert_stop c key a =
     (case c a of
        None \<Rightarrow> None
      | Some e \<Rightarrow>
          (case e_next e of
             None \<Rightarrow> Some a
           | Some b \<Rightarrow> if e_key e \<noteq> key then heap_insert_stop c key b else Some a))"

definition heap_insert ::
  "('k \<Rightarrow> nat) \<Rightarrow> 'k \<Rightarrow> 'v \<Rightarrow> nat \<Rightarrow> ('k, 'v) memory \<Rightarrow> (unit, ('k, 'v) memory) outcome" where
  "heap_insert F key val this m =
     (case heap_bucket F m this key of
        None \<Rightarrow> Undefined
      | Some (idx, head) \<Rightarrow>
          (case head of
             None \<Rightarrow>
               (case new_Element key val m of (b, m') \<Rightarrow> Return () (set_bucket this idx (Some b) m'))
           | Some a0 \<Rightarrow>
               (case heap_insert_stop (cells m) key a0 of
                  None \<Rightarrow> Undefined
                | Some a \<Rightarrow>
                    (case cells m a of
                       None \<Rightarrow> Undefined
                     | Some e \<Rightarrow>
                         if e_key e = key
                         then Return () (m\<lparr>cells := (cells m)(a := Some (e\<lparr>e_value := val\<rparr>))\<rparr>)
                         else (case new_Element key val m of
                                 (b, m') \<Rightarrow>
                                   Return () (m'\<lparr>cells := (cells m')(a := Some (e\<lparr>e_next := Some b\<rparr>))\<rparr>))))))"

text \<open>
  \<^verbatim>\<open>remove\<close>: the scan keeps the element before the current one in \<^verbatim>\<open>prev\<close>; the element
  found is unlinked from the bucket slot or from \<^verbatim>\<open>prev\<close> and deleted.
\<close>

partial_function (option) heap_remove_scan ::
  "(addr \<Rightarrow> ('k, 'v) element option) \<Rightarrow> 'k \<Rightarrow> addr option \<Rightarrow> addr option
     \<Rightarrow> (addr option \<times> addr option) option" where
  "heap_remove_scan c key tmp prev =
     (case tmp of
        None \<Rightarrow> Some (None, prev)
      | Some a \<Rightarrow>
          (case c a of
             None \<Rightarrow> None
           | Some e \<Rightarrow>
               if e_key e \<noteq> key then heap_remove_scan c key (e_next e) (Some a)
               else Some (Some a, prev)))"

definition heap_remove ::
  "('k \<Rightarrow> nat) \<Rightarrow> 'k \<Rightarrow> nat \<Rightarrow> ('k, 'v) memory \<Rightarrow> (unit, ('k, 'v) memory) outcome" where
  "heap_remove F key this m =
     (case heap_bucket F m this key of
        None \<Rightarrow> Undefined
      | Some (idx, head) \<Rightarrow>
          (case heap_remove_scan (cells m) key head None of
             None \<Rightarrow> Undefined
           | Some (None, prev) \<Rightarrow> Throw out_of_range m
           | Some (Some a, prev) \<Rightarrow>
               (case cells m a of
                  None \<Rightarrow> Undefined
                | Some e \<Rightarrow>
                    (case prev of
                       None \<Rightarrow> Return () (delete_Element a (set_bucket this idx (e_next e) m))
                     | Some p \<Rightarrow>
                         (case cells m p of
                            None \<Rightarrow> Undefined
                          | Some ep \<Rightarrow>
                              Return ()
                                (delete_Element a
                                   (m\<lparr>cells := (cells m)(p := Some (ep\<lparr>e_next := e_next e\<rparr>))\<rparr>)))))))"

text \<open>
  The loops that the copy constructor and the copy assignment operator share. The inner
  one reads \<^verbatim>\<open>tmp->getKey()\<close> and \<^verbatim>\<open>tmp->getValue()\<close>, calls \<^verbatim>\<open>insert\<close> on \<open>this\<close>, and
  reads \<^verbatim>\<open>tmp->next\<close> in the memory that the call leaves. The outer one locks bucket \<open>i\<close>
  of \<open>other\<close> and reads its head; both read the members of \<open>other\<close> anew in every round.
\<close>

partial_function (option) heap_copy_chain ::
  "('k \<Rightarrow> nat) \<Rightarrow> nat \<Rightarrow> addr option \<Rightarrow> ('k, 'v) memory \<Rightarrow> ('k, 'v) memory option" where
  "heap_copy_chain F this tmp m =
     (case tmp of
        None \<Rightarrow> Some m
      | Some a \<Rightarrow>
          (case cells m a of
             None \<Rightarrow> None
           | Some e \<Rightarrow>
               (case heap_insert F (e_key e) (e_value e) this m of
                  Return u m' \<Rightarrow>
                    (case cells m' a of
                       None \<Rightarrow> None
                     | Some e' \<Rightarrow> heap_copy_chain F this (e_next e') m')
                | Throw x m' \<Rightarrow> None
                | Undefined \<Rightarrow> None)))"

partial_function (option) heap_copy_buckets ::
  "('k \<Rightarrow> nat) \<Rightarrow> nat \<Rightarrow> nat \<Rightarrow> nat \<Rightarrow> ('k, 'v) memory \<Rightarrow> ('k, 'v) memory option" where
  "heap_copy_buckets F this other i m =
     (if i < t_size (tables m other) then
        (if lock_guard (t_mutexes (tables m other)) i then
           (case load (t_table (tables m other)) i of
              None \<Rightarrow> None
            | Some tmp \<Rightarrow>
                (case heap_copy_chain F this tmp m of
                   None \<Rightarrow> None
                 | Some m' \<Rightarrow> heap_copy_buckets F this other (Suc i) m'))
         else None)
      else Some m)"

text \<open>
  \<^verbatim>\<open>HashMap(HashMap &other)\<close>: the members of the new object \<open>this\<close> are set by
  \<^verbatim>\<open>allocateTableAndMutexes(other._size)\<close>, whatever they held before.
\<close>

definition heap_copy_construct ::
  "('k \<Rightarrow> nat) \<Rightarrow> nat \<Rightarrow> nat \<Rightarrow> ('k, 'v) memory \<Rightarrow> (unit, ('k, 'v) memory) outcome" where
  "heap_copy_construct F this other m =
     (case heap_copy_buckets F this other 0
             (heap_allocateTableAndMutexes this (t_size (tables m other)) m) of
        None \<Rightarrow> Undefined
      | Some m' \<Rightarrow> Return () m')"

text \<open>
  \<^verbatim>\<open>destroyTableAndMutexes\<close> on the object \<open>this\<close>: the inner loop
  \<^verbatim>\<open>old = tmp; tmp = tmp->next; delete old;\<close> frees a chain, the outer loop is that of
  \<open>destroy_buckets\<close>.
\<close>

partial_function (option) heap_free_chain ::
  "addr option \<Rightarrow> ('k, 'v) memory \<Rightarrow> ('k, 'v) memory option" where
  "heap_free_chain tmp m =
     (case tmp of
        None \<Rightarrow> Some m
      | Some old \<Rightarrow>
          (case cells m old of
             None \<Rightarrow> None
           | Some e \<Rightarrow> heap_free_chain (e_next e) (delete_Element old m)))"

partial_function (option) heap_destroy_buckets ::
  "nat \<Rightarrow> nat \<Rightarrow> ('k, 'v) memory \<Rightarrow> ('k, 'v) memory option" where
  "heap_destroy_buckets this i m =
     (if i < t_size (tables m this) then
        (if lock_guard (t_mutexes (tables m this)) i then
           (case load (t_table (tables m this)) i of
              None \<Rightarrow> None
            | Some tmp \<Rightarrow>
                (if tmp = None then heap_destroy_buckets this (Suc i) m
                 else (case heap_free_chain tmp m of
                         None \<Rightarrow> None
                       | Some m' \<Rightarrow>
                           if delete_mutex False then heap_destroy_buckets this (Suc i) m'
                           else None)))
         else None)
      else Some m)"

definition heap_destroyTableAndMutexes :: "nat \<Rightarrow> ('k, 'v) memory \<Rightarrow> ('k, 'v) memory option" where
  "heap_destroyTableAndMutexes this m =
     (if t_table (tables m this) = nullarray then Some m
      else (case heap_destroy_buckets this 0 m of
              None \<Rightarrow> None
            | Some m' \<Rightarrow>
                (case (delete_array (t_table (tables m' this)), delete_array (t_mutexes (tables m' this))) of
                   (Some a, Some b) \<Rightarrow>
                     Some (m'\<lparr>tables := (tables m')(this := \<lparr>t_size = 0, t_table = a, t_mutexes = b\<rparr>)\<rparr>)
                 | _ \<Rightarrow> None)))"

text \<open>\<^verbatim>\<open>operator=(HashMap &other)\<close>, which ends with \<^verbatim>\<open>return *this\<close>.\<close>

definition heap_copy_assign ::
  "('k \<Rightarrow> nat) \<Rightarrow> nat \<Rightarrow> nat \<Rightarrow> ('k, 'v) memory \<Rightarrow> (unit, ('k, 'v) memory) outcome" where
  "heap_copy_assign F this other m =
     (if this \<noteq> other then
        (case heap_destroyTableAndMutexes this m of
           None \<Rightarrow> Undefined
         | Some m1 \<Rightarrow>
             (case heap_copy_buckets F this other 0
                     (heap_allocateTableAndMutexes this (t_size (tables m1 other)) m1) of
                None \<Rightarrow> Undefined
              | Some m' \<Rightarrow> Return () m'))
      else Return () m)"

subsection \<open>Notions used to state the properties\<close>

text \<open>
  An array pointer is initialised for \<open>n\<close> when it points to a live array of \<open>n\<close> slots
  that have all been written. A table is valid when its two arrays are initialised for
  its size: the state that \<^verbatim>\<open>allocateTableAndMutexes\<close> sets up.
\<close>

definition initialised :: "'a arrayptr \<Rightarrow> nat \<Rightarrow> bool" where
  "initialised a n = (case a of Array cs \<Rightarrow> length cs = n \<and> Indeterminate \<notin> set cs | _ \<Rightarrow> False)"

definition valid :: "('k, 'v) HashMap \<Rightarrow> bool" where
  "valid t = (initialised (m_table t) (m_size t) \<and> initialised (m_mutexes t) (m_size t))"

text \<open>The value that the scan for a key finds in a chain.\<close>

definition found :: "'k \<Rightarrow> ('k, 'v) ElementPtr \<Rightarrow> 'v option" where
  "found key p = (case scan key p of nullptr \<Rightarrow> None | Element k v n \<Rightarrow> Some v)"

text \<open>
  A run of inserts and removes by a caller that catches \<^verbatim>\<open>std::out_of_range\<close> and goes
  on, as test1.cpp does.
\<close>

datatype ('k, 'v) operation = Insert 'k 'v | Remove 'k

fun op_key :: "('k, 'v) operation \<Rightarrow> 'k" where
  "op_key (Insert k v) = k"
| "op_key (Remove k) = k"

fun apply_op :: "('k \<Rightarrow> nat) \<Rightarrow> ('k, 'v) operation \<Rightarrow> ('k, 'v) HashMap \<Rightarrow> (unit, ('k, 'v) HashMap) outcome" where
  "apply_op F (Insert k v) t = HashMap_insert F k v t"
| "apply_op F (Remove k) t = HashMap_remove F k t"

fun run :: "('k \<Rightarrow> nat) \<Rightarrow> ('k, 'v) operation list \<Rightarrow> ('k, 'v) HashMap \<Rightarrow> ('k, 'v) HashMap option" where
  "run F [] t = Some t"
| "run F (x # xs) t =
     (case apply_op F x t of
        Return u t' \<Rightarrow> run F xs t'
      | Throw e t' \<Rightarrow> run F xs t'
      | Undefined \<Rightarrow> None)"

text \<open>The chain of bucket \<open>i\<close>, and all stored pairs in bucket order.\<close>

definition chain_at :: "('k, 'v) HashMap \<Rightarrow> nat \<Rightarrow> ('k, 'v) ElementPtr" where
  "chain_at t i = (case load (m_table t) i of None \<Rightarrow> nullptr | Some p \<Rightarrow> p)"

definition contents :: "('k, 'v) HashMap \<Rightarrow> ('k \<times> 'v) list" where
  "contents t = concat (map (\<lambda>i. entries (chain_at t i)) [0..<m_size t])"

text \<open>
  The invariant of the table: every element that can be reached in bucket \<open>i\<close> has a key
  that hashes to \<open>i\<close>, and no chain holds a key twice.
\<close>

definition chain_ok :: "('k \<Rightarrow> nat) \<Rightarrow> nat \<Rightarrow> nat \<Rightarrow> ('k, 'v) ElementPtr \<Rightarrow> bool" where
  "chain_ok F n i p = (list_all (\<lambda>e. F (fst e) mod n = i) (entries p) \<and> distinct (map fst (entries p)))"

definition array_ok :: "('k \<Rightarrow> nat) \<Rightarrow> nat \<Rightarrow> ('k, 'v) ElementPtr arrayptr \<Rightarrow> bool" where
  "array_ok F n a = list_all (\<lambda>i. case load a i of None \<Rightarrow> True | Some p \<Rightarrow> chain_ok F n i p) [0..<n]"

definition well_formed :: "('k \<Rightarrow> nat) \<Rightarrow> ('k, 'v) HashMap \<Rightarrow> bool" where
  "well_formed F t = array_ok F (m_size t) (m_table t)"

text \<open>
  The states that a sized construction followed by inserts, removes and resizes can
  leave. A call that throws leaves the state it found.
\<close>

inductive reachable :: "('k \<Rightarrow> nat) \<Rightarrow> ('k, 'v) HashMap \<Rightarrow> bool" for F :: "'k \<Rightarrow> nat" where
  sized: "reachable F (HashMap_sized n)"
| inserted: "reachable F t \<Longrightarrow> HashMap_insert F k v t = Return u t' \<Longrightarrow> reachable F t'"
| removed: "reachable F t \<Longrightarrow> HashMap_remove F k t = Return u t' \<Longrightarrow> reachable F t'"
| resized: "reachable F t \<Longrightarrow> HashMap_resize F n t = Return u t' \<Longrightarrow> reachable F t'"

text \<open>The pairs stored in the buckets from index \<open>i\<close> on.\<close>

definition rest :: "('k, 'v) HashMap \<Rightarrow> nat \<Rightarrow> ('k \<times> 'v) list" where
  "rest t i = concat (map (\<lambda>j. entries (chain_at t j)) [i..<m_size t])"

text \<open>
  A run of inserts and removes on the object \<open>this\<close> of a memory, by a caller that
  catches.
\<close>

fun heap_apply_op ::
  "('k \<Rightarrow> nat) \<Rightarrow> ('k, 'v) operation \<Rightarrow> nat \<Rightarrow> ('k, 'v) memory \<Rightarrow> (unit, ('k, 'v) memory) outcome" where
  "heap_apply_op F (Insert k v) this m = heap_insert F k v this m"
| "heap_apply_op F (Remove k) this m = heap_remove F k this m"

fun heap_run ::
  "('k \<Rightarrow> nat) \<Rightarrow> nat \<Rightarrow> ('k, 'v) operation list \<Rightarrow> ('k, 'v) memory \<Rightarrow> ('k, 'v) memory option" where
  "heap_run F this [] m = Some m"
| "heap_run F this (x # xs) m =
     (case heap_apply_op F x this m of
        Return u m' \<Rightarrow> heap_run F this xs m'
      | Throw e m' \<Rightarrow> heap_run F this xs m'
      | Undefined \<Rightarrow> None)"

text \<open>What a caller sees of a call: the result or the exception, not the memory.\<close>

definition observe :: "('a, 's) outcome \<Rightarrow> ('a, unit) outcome" where
  "observe r = (case r of Return x s \<Rightarrow> Return x () | Throw e s \<Rightarrow> Throw e () | Undefined \<Rightarrow> Undefined)"

text \<open>
  The pointer \<open>p\<close> leads through the live cells at the addresses \<open>as\<close>, in this order, to
  \<^verbatim>\<open>nullptr\<close>; and the chain that these cells hold, as a value.
\<close>

fun path :: "(addr \<Rightarrow> ('k, 'v) element option) \<Rightarrow> addr option \<Rightarrow> addr list \<Rightarrow> bool" where
  "path c p [] = (p = None)"
| "path c p (a # as) =
     (p = Some a \<and> (case c a of None \<Rightarrow> False | Some e \<Rightarrow> path c (e_next e) as))"

fun chain_abs :: "(addr \<Rightarrow> ('k, 'v) element option) \<Rightarrow> addr list \<Rightarrow> ('k, 'v) ElementPtr" where
  "chain_abs c [] = nullptr"
| "chain_abs c (a # as) =
     (case c a of None \<Rightarrow> nullptr | Some e \<Rightarrow> Element (e_key e) (e_value e) (chain_abs c as))"

text \<open>
  The members \<open>pt\<close> of an object and the cells \<open>c\<close> represent the table \<open>t\<close> of the first
  view: the capacity and the mutexes agree, every slot of the bucket array has been
  written, bucket \<open>i\<close> leads through the addresses \<open>ass i\<close> to the chain that \<open>t\<close> has there,
  and no address occurs twice. \<open>owned\<close> collects the addresses of all buckets.
\<close>

definition rep ::
  "(addr \<Rightarrow> ('k, 'v) element option) \<Rightarrow> table \<Rightarrow> (nat \<Rightarrow> addr list) \<Rightarrow> ('k, 'v) HashMap \<Rightarrow> bool" where
  "rep c pt ass t =
     (t_size pt = m_size t \<and> t_mutexes pt = m_mutexes t \<and> valid t \<and>
      initialised (t_table pt) (m_size t) \<and>
      list_all (\<lambda>i. case load (t_table pt) i of
                      None \<Rightarrow> False
                    | Some p \<Rightarrow> path c p (ass i) \<and> chain_at t i = chain_abs c (ass i))
        [0..<m_size t] \<and>
      distinct (concat (map ass [0..<m_size t])))"

definition owned :: "nat \<Rightarrow> (nat \<Rightarrow> addr list) \<Rightarrow> addr set" where
  "owned n ass = set (concat (map ass [0..<n]))"

text \<open>No cell lives at an address that \<^verbatim>\<open>new\<close> has not handed out yet.\<close>

definition heap_ok :: "('k, 'v) memory \<Rightarrow> bool" where
  "heap_ok m = (\<forall>a. next_free m \<le> a \<longrightarrow> cells m a = None)"

text \<open>
  The object \<open>x\<close> of the memory holds the table \<open>t\<close> in elements at the addresses \<open>ass\<close>;
  \<open>stores\<close> also admits the default-constructed and the moved-from object, which has no
  arrays.
\<close>

definition held :: "('k, 'v) memory \<Rightarrow> nat \<Rightarrow> (nat \<Rightarrow> addr list) \<Rightarrow> ('k, 'v) HashMap \<Rightarrow> bool" where
  "held m x ass t = (rep (cells m) (tables m x) ass t \<and> owned (m_size t) ass \<subseteq> {..<next_free m})"

definition stores ::
  "('k, 'v) memory \<Rightarrow> nat \<Rightarrow> (nat \<Rightarrow> addr list) \<Rightarrow> ('k, 'v) HashMap \<Rightarrow> bool" where
  "stores m x ass t = (held m x ass t \<or> tables m x = heap_HashMap_default \<and> t = HashMap_default)"

text \<open>Two objects hold their tables in elements that they do not share.\<close>

definition separate ::
  "('k, 'v) memory \<Rightarrow> nat \<Rightarrow> (nat \<Rightarrow> addr list) \<Rightarrow> ('k, 'v) HashMap \<Rightarrow>
     nat \<Rightarrow> (nat \<Rightarrow> addr list) \<Rightarrow> ('k, 'v) HashMap \<Rightarrow> bool" where
  "separate m x assx tx y assy ty =
     (heap_ok m \<and> held m x assx tx \<and> held m y assy ty \<and>
      owned (m_size tx) assx \<inter> owned (m_size ty) assy = {})"

text \<open>Concrete tables, with the identity as hash functor in what follows.\<close>

definition example_table :: "(nat, string) HashMap" where
  "example_table =
     \<lparr>m_size = 2,
      m_table = Array [Value (Element 0 ''zero'' (Element 2 ''two'' nullptr)),
                       Value (Element 1 ''one'' nullptr)],
      m_mutexes = Array [Value Mutex, Value Mutex]\<rparr>"

definition second_bucket_table :: "(nat, string) HashMap" where
  "second_bucket_table =
     \<lparr>m_size = 2,
      m_table = Array [Value nullptr, Value (Element 1 ''one'' nullptr)],
      m_mutexes = Array [Value Mutex, Value Mutex]\<rparr>"

definition one_entry_table :: "(nat, string) HashMap" where
  "one_entry_table =
     \<lparr>m_size = 1, m_table = Array [Value (Element 0 ''zero'' nullptr)], m_mutexes = Array [Value Mutex]\<rparr>"

definition resized_empty_table :: "(nat, string) HashMap" where
  "resized_empty_table =
     \<lparr>m_size = 2, m_table = Array [Indeterminate, Indeterminate],
      m_mutexes = Array [Indeterminate, Indeterminate]\<rparr>"

definition example_objects :: "(nat, string) objects" where
  "example_objects = (\<lambda>a. HashMap_default)(1 := example_table)"

text \<open>
  A concrete memory: object 1 holds \<open>example_table\<close> in the cells 0, 1 and 2, as
  \<^verbatim>\<open>HashMap m(2)\<close> followed by the inserts of 0, 2 and 1 leaves them; object 2 holds a
  table of capacity 1 with one entry in cell 3; every other object is default-constructed.
  In \<open>shared_memory\<close> object 0 has the members of object 1, so that the two share their
  elements, as a copy of the members alone would leave them.
\<close>

definition example_memory :: "(nat, string) memory" where
  "example_memory =
     \<lparr>cells = (\<lambda>a. None)
        (0 := Some \<lparr>e_key = 0, e_value = ''zero'', e_next = Some 1\<rparr>,
         1 := Some \<lparr>e_key = 2, e_value = ''two'', e_next = None\<rparr>,
         2 := Some \<lparr>e_key = 1, e_value = ''one'', e_next = None\<rparr>,
         3 := Some \<lparr>e_key = 0, e_value = ''nought'', e_next = None\<rparr>),
      next_free = 4,
      tables = (\<lambda>x. heap_HashMap_default)
        (1 := \<lparr>t_size = 2, t_table = Array [Value (Some 0), Value (Some 2)],
               t_mutexes = Array [Value Mutex, Value Mutex]\<rparr>,
         2 := \<lparr>t_size = 1, t_table = Array [Value (Some 3)], t_mutexes = Array [Value Mutex]\<rparr>)\<rparr>"

definition example_addresses :: "nat \<Rightarrow> addr list" where
  "example_addresses = (\<lambda>i. [])(0 := [0, 1], 1 := [2])"

definition nought_table :: "(nat, string) HashMap" where
  "nought_table =
     \<lparr>m_size = 1, m_table = Array [Value (Element 0 ''nought'' nullptr)], m_mutexes = Array [Value Mutex]\<rparr>"

definition shared_memory :: "(nat, string) memory" where
  "shared_memory = example_memory\<lparr>tables := (tables example_memory)(0 := tables example_memory 1)\<rparr>"

text \<open>The memory before any object is constructed.\<close>

definition empty_memory :: "(nat, string) memory" where
  "empty_memory = \<lparr>cells = (\<lambda>a. None), next_free = 0, tables = (\<lambda>x. heap_HashMap_default)\<rparr>"

section \<open>Properties of the arrays, the chains and the keyed operations\<close>

lemma initialised_load:
  "initialised a n \<Longrightarrow> i < n \<Longrightarrow> \<exists>x. load a i = Some x"
  by (auto simp: initialised_def load_def split: arrayptr.splits cell.splits) (metis nth_mem)

lemma load_store:
  "load a i = Some y \<Longrightarrow> load (store a i x) j = (if j = i then Some x else load a j)"
  by (auto simp: load_def store_def split: arrayptr.splits if_splits)

lemma initialised_store:
  "initialised a n \<Longrightarrow> i < n \<Longrightarrow> initialised (store a i x) n"
  by (auto simp: initialised_def store_def split: arrayptr.splits dest: set_update_subset_insert [THEN subsetD])

lemma valid_bucket:
  assumes "valid t" "0 < m_size t"
  shows "\<exists>tmp. bucket F t key = Some (F key mod m_size t, tmp)"
proof -
  have i: "F key mod m_size t < m_size t" using assms(2) by simp
  from assms(1) i obtain m where "load (m_mutexes t) (F key mod m_size t) = Some m"
    unfolding valid_def using initialised_load by blast
  moreover from assms(1) i obtain p where "load (m_table t) (F key mod m_size t) = Some p"
    unfolding valid_def using initialised_load by blast
  ultimately show ?thesis using assms(2) by (simp add: bucket_def hash_def lock_guard_def)
qed

lemma bucket_index:
  "bucket F t key = Some (idx, tmp) \<Longrightarrow>
     0 < m_size t \<and> idx = F key mod m_size t \<and> load (m_table t) idx = Some tmp"
  by (auto simp: bucket_def hash_def split: if_splits option.splits)

lemma bucket_store:
  assumes "bucket F t key = Some (idx, tmp)"
  shows "bucket F (t\<lparr>m_table := store (m_table t) idx p\<rparr>) key' =
           (if F key' mod m_size t = idx then Some (idx, p) else bucket F t key')"
proof -
  from assms have l: "load (m_table t) idx = Some tmp" and s: "0 < m_size t"
    and i: "idx = F key mod m_size t" and g: "lock_guard (m_mutexes t) idx"
    by (auto simp: bucket_def hash_def split: if_splits option.splits)
  show ?thesis using s g by (simp add: bucket_def hash_def load_store [OF l])
qed

lemma bucket_same_index:
  "bucket F t key = Some (idx, tmp) \<Longrightarrow> F k mod m_size t = idx \<Longrightarrow> bucket F t k = Some (idx, tmp)"
  by (auto simp: bucket_def hash_def split: if_splits option.splits)

lemma found_insert_same: "found key (insert_chain key val p) = Some val"
  by (induction p) (auto simp: found_def)

lemma found_insert_other: "k' \<noteq> key \<Longrightarrow> found k' (insert_chain key val p) = found k' p"
  by (induction p) (auto simp: found_def)

lemma found_unlink_other: "k' \<noteq> key \<Longrightarrow> found k' (unlink key p) = found k' p"
  by (induction p) (auto simp: found_def)

lemma lookup_found:
  "HashMap_lookup F key t =
     (case bucket F t key of None \<Rightarrow> Undefined
      | Some (idx, tmp) \<Rightarrow> (case found key tmp of None \<Rightarrow> Throw out_of_range t | Some v \<Rightarrow> Return v t))"
  by (auto simp: HashMap_lookup_def found_def split: option.splits ElementPtr.splits)

lemma exists_found:
  "HashMap_exists F key t =
     (case bucket F t key of None \<Rightarrow> Undefined
      | Some (idx, tmp) \<Rightarrow> Return (found key tmp \<noteq> None) t)"
  by (auto simp: HashMap_exists_def found_def split: option.splits ElementPtr.splits)


lemma insert_returns:
  "HashMap_insert F key val t = Return u t' \<longleftrightarrow>
     (\<exists>idx tmp. bucket F t key = Some (idx, tmp) \<and>
        t' = t\<lparr>m_table := store (m_table t) idx (insert_chain key val tmp)\<rparr>)"
  by (auto simp: HashMap_insert_def split: option.splits)

lemma insert_never_throws: "HashMap_insert F key val t \<noteq> Throw e t'"
  by (auto simp: HashMap_insert_def split: option.splits)

lemma remove_returns:
  "HashMap_remove F key t = Return u t' \<longleftrightarrow>
     (\<exists>idx tmp. bucket F t key = Some (idx, tmp) \<and> scan key tmp \<noteq> nullptr \<and>
        t' = t\<lparr>m_table := store (m_table t) idx (unlink key tmp)\<rparr>)"
  by (auto simp: HashMap_remove_def split: option.splits)

lemma remove_throws:
  "HashMap_remove F key t = Throw e t' \<longleftrightarrow>
     (\<exists>idx tmp. bucket F t key = Some (idx, tmp) \<and> scan key tmp = nullptr \<and> t' = t)"
  by (cases e) (auto simp: HashMap_remove_def split: option.splits)

lemma lookup_after_insert:
  assumes "HashMap_insert F key val t = Return u t'"
  shows "HashMap_lookup F k t' =
           (if k = key then Return val t'
            else case HashMap_lookup F k t of Return v s \<Rightarrow> Return v t' | Throw e s \<Rightarrow> Throw e t'
                 | Undefined \<Rightarrow> Undefined)"
proof -
  from assms obtain idx tmp where b: "bucket F t key = Some (idx, tmp)"
    and t': "t' = t\<lparr>m_table := store (m_table t) idx (insert_chain key val tmp)\<rparr>"
    by (auto simp: insert_returns)
  from b have i: "idx = F key mod m_size t" by (simp add: bucket_index)
  show ?thesis
    unfolding lookup_found t' bucket_store [OF b]
    using b i bucket_same_index [OF b, of k]
    by (auto simp: found_insert_same found_insert_other split: option.splits)
qed

lemma lookup_after_remove:
  assumes "HashMap_remove F key t = Return u t'" "k \<noteq> key"
  shows "HashMap_lookup F k t' =
           (case HashMap_lookup F k t of Return v s \<Rightarrow> Return v t' | Throw e s \<Rightarrow> Throw e t'
            | Undefined \<Rightarrow> Undefined)"
proof -
  from assms obtain idx tmp where b: "bucket F t key = Some (idx, tmp)"
    and t': "t' = t\<lparr>m_table := store (m_table t) idx (unlink key tmp)\<rparr>"
    by (auto simp: remove_returns)
  from b have i: "idx = F key mod m_size t" by (simp add: bucket_index)
  show ?thesis
    unfolding lookup_found t' bucket_store [OF b]
    using b i assms(2) bucket_same_index [OF b, of k]
    by (auto simp: found_unlink_other split: option.splits)
qed

lemma exists_lookup:
  "HashMap_exists F k t =
     (case HashMap_lookup F k t of Return v s \<Rightarrow> Return True t | Throw e s \<Rightarrow> Return False t
      | Undefined \<Rightarrow> Undefined)"
  by (auto simp: lookup_found exists_found split: option.splits)

lemma apply_op_keeps_lookup:
  assumes "op_key x \<noteq> k" "HashMap_lookup F k t = Return v t"
    and "apply_op F x t = Return u t' \<or> apply_op F x t = Throw e t'"
  shows "HashMap_lookup F k t' = Return v t'"
proof (cases x)
  case (Insert k' v')
  with assms show ?thesis
    by (auto simp: insert_never_throws lookup_after_insert)
next
  case (Remove k')
  with assms show ?thesis
    by (auto simp: lookup_after_remove remove_throws)
qed

lemma run_keeps_lookup:
  "\<forall>x\<in>set ops. op_key x \<noteq> k \<Longrightarrow> HashMap_lookup F k t = Return v t \<Longrightarrow> run F ops t = Some t'
     \<Longrightarrow> HashMap_lookup F k t' = Return v t'"
proof (induction ops arbitrary: t)
  case Nil
  then show ?case by simp
next
  case (Cons x xs)
  show ?case
  proof (cases "apply_op F x t")
    case (Return u s)
    with Cons.prems have "HashMap_lookup F k s = Return v s" "run F xs s = Some t'"
      by (auto intro: apply_op_keeps_lookup)
    with Cons show ?thesis by simp
  next
    case (Throw e s)
    with Cons.prems have "HashMap_lookup F k s = Return v s" "run F xs s = Some t'"
      by (auto intro: apply_op_keeps_lookup)
    with Cons show ?thesis by simp
  next
    case Undefined
    with Cons.prems show ?thesis by simp
  qed
qed

lemma valid_store:
  "valid t \<Longrightarrow> idx < m_size t \<Longrightarrow> valid (t\<lparr>m_table := store (m_table t) idx p\<rparr>)"
  by (simp add: valid_def initialised_store)

lemma apply_op_valid:
  assumes "valid t" "0 < m_size t"
  shows "\<exists>t'. (apply_op F x t = Return () t' \<or> apply_op F x t = Throw out_of_range t') \<and>
           valid t' \<and> m_size t' = m_size t"
proof -
  obtain tmp where b: "bucket F t (op_key x) = Some (F (op_key x) mod m_size t, tmp)"
    using valid_bucket [OF assms] by blast
  have i: "F (op_key x) mod m_size t < m_size t" using assms(2) by simp
  show ?thesis
    by (cases x) (use b i assms(1) in \<open>auto simp: HashMap_insert_def HashMap_remove_def valid_store\<close>)
qed

lemma run_valid:
  "valid t \<Longrightarrow> 0 < m_size t \<Longrightarrow> \<exists>t'. run F ops t = Some t' \<and> valid t' \<and> m_size t' = m_size t"
proof (induction ops arbitrary: t)
  case Nil
  then show ?case by simp
next
  case (Cons x xs)
  from apply_op_valid [OF Cons.prems, of F x] obtain s
    where s: "apply_op F x t = Return () s \<or> apply_op F x t = Throw out_of_range s"
      and v: "valid s" "m_size s = m_size t" by blast
  from Cons.IH [of s] v Cons.prems obtain t' where "run F xs s = Some t'" "valid t'" "m_size t' = m_size t"
    by auto
  with s show ?case by auto
qed

subsection \<open>The invariant\<close>

lemma array_ok_iff:
  "array_ok F n a \<longleftrightarrow> (\<forall>i p. i < n \<longrightarrow> load a i = Some p \<longrightarrow> chain_ok F n i p)"
  by (auto simp: array_ok_def list_all_iff split: option.splits)

lemma keys_insert_chain: "fst ` set (entries (insert_chain k v p)) = insert k (fst ` set (entries p))"
  by (induction p) auto

lemma keys_unlink: "set (entries (unlink k p)) \<subseteq> set (entries p)"
  by (induction p) auto

lemma distinct_insert_chain:
  "distinct (map fst (entries p)) \<Longrightarrow> distinct (map fst (entries (insert_chain k v p)))"
proof (induction p)
  case nullptr
  then show ?case by simp
next
  case (Element k' v' n)
  have "k' \<notin> fst ` set (entries (insert_chain k v n))" if "k' \<noteq> k"
    using that Element.prems by (simp add: keys_insert_chain)
  with Element show ?case by auto
qed

lemma distinct_unlink:
  "distinct (map fst (entries p)) \<Longrightarrow> distinct (map fst (entries (unlink k p)))"
proof (induction p)
  case nullptr
  then show ?case by simp
next
  case (Element k' v' n)
  have "k' \<notin> fst ` set (entries (unlink k n))"
    using Element.prems keys_unlink [of k n] by auto
  with Element show ?case by auto
qed

lemma chain_ok_insert_chain:
  "chain_ok F n i p \<Longrightarrow> F k mod n = i \<Longrightarrow> chain_ok F n i (insert_chain k v p)"
proof -
  assume ok: "chain_ok F n i p" and i: "F k mod n = i"
  have "F (fst e) mod n = i" if "e \<in> set (entries (insert_chain k v p))" for e
  proof -
    from that have "fst e \<in> fst ` set (entries (insert_chain k v p))" by (rule imageI)
    then have "fst e \<in> insert k (fst ` set (entries p))" by (simp only: keys_insert_chain)
    with ok i show ?thesis by (auto simp: chain_ok_def list_all_iff)
  qed
  with ok show ?thesis by (simp add: chain_ok_def list_all_iff distinct_insert_chain)
qed

lemma chain_ok_unlink: "chain_ok F n i p \<Longrightarrow> chain_ok F n i (unlink k p)"
  unfolding chain_ok_def list_all_iff
  using keys_unlink [of k p] by (auto simp: distinct_unlink)

lemma chain_ok_nullptr: "chain_ok F n i nullptr"
  by (simp add: chain_ok_def)

lemma array_ok_store:
  assumes "array_ok F n a" "load a i = Some q" "chain_ok F n i p"
  shows "array_ok F n (store a i p)"
  using assms by (auto simp: array_ok_iff load_store)

lemma well_formed_insert:
  assumes "well_formed F t" "HashMap_insert F k v t = Return u t'"
  shows "well_formed F t'"
proof -
  from assms(2) obtain idx tmp where b: "bucket F t k = Some (idx, tmp)"
    and t': "t' = t\<lparr>m_table := store (m_table t) idx (insert_chain k v tmp)\<rparr>"
    by (auto simp: insert_returns)
  from b have i: "0 < m_size t" "idx = F k mod m_size t" "load (m_table t) idx = Some tmp"
    by (simp_all add: bucket_index)
  then have "idx < m_size t" by simp
  with assms(1) i have "chain_ok F (m_size t) idx tmp" by (simp add: well_formed_def array_ok_iff)
  then have "chain_ok F (m_size t) idx (insert_chain k v tmp)" using i(2) by (simp add: chain_ok_insert_chain)
  with assms(1) i(3) show ?thesis by (simp add: well_formed_def t' array_ok_store)
qed

lemma well_formed_remove:
  assumes "well_formed F t" "HashMap_remove F k t = Return u t'"
  shows "well_formed F t'"
proof -
  from assms(2) obtain idx tmp where b: "bucket F t k = Some (idx, tmp)"
    and t': "t' = t\<lparr>m_table := store (m_table t) idx (unlink k tmp)\<rparr>"
    by (auto simp: remove_returns)
  from b have i: "0 < m_size t" "idx = F k mod m_size t" "load (m_table t) idx = Some tmp"
    by (simp_all add: bucket_index)
  then have "idx < m_size t" by simp
  with assms(1) i have "chain_ok F (m_size t) idx tmp" by (simp add: well_formed_def array_ok_iff)
  then have "chain_ok F (m_size t) idx (unlink k tmp)" by (simp add: chain_ok_unlink)
  with assms(1) i(3) show ?thesis by (simp add: well_formed_def t' array_ok_store)
qed

lemma rehash_chain_ok:
  "rehash_chain F n tmp a = Some a' \<Longrightarrow> array_ok F n a \<Longrightarrow> array_ok F n a'"
proof (induction tmp arbitrary: a)
  case nullptr
  then show ?case by simp
next
  case (Element k v nx)
  from Element.prems(1) obtain p where n: "0 < n" and p: "load a (F k mod n) = Some p"
    and r: "rehash_chain F n nx (store a (F k mod n) (if p = nullptr then Element k v nullptr else insert_chain k v p)) = Some a'"
    by (auto split: if_splits option.splits)
  have e: "(if p = nullptr then Element k v nullptr else insert_chain k v p) = insert_chain k v p"
    by simp
  from n have "F k mod n < n" by simp
  with Element.prems(2) p have "chain_ok F n (F k mod n) p" by (simp add: array_ok_iff)
  then have "chain_ok F n (F k mod n) (insert_chain k v p)" by (simp add: chain_ok_insert_chain)
  with Element.prems(2) p have "array_ok F n (store a (F k mod n) (insert_chain k v p))"
    by (simp add: array_ok_store)
  with Element.IH r e show ?case by simp
qed

lemma resize_buckets_ok:
  "resize_buckets F n t i a = Some a' \<Longrightarrow> array_ok F n a \<Longrightarrow> array_ok F n a'"
proof (induction F n t i a rule: resize_buckets.induct)
  case (1 F newSize t i newTable)
  show ?case
  proof (cases "i < m_size t")
    case False
    with "1.prems" show ?thesis by (simp add: resize_buckets.simps)
  next
    case True
    with "1.prems"(1) obtain tmp where g: "lock_guard (m_mutexes t) i"
      and l: "load (m_table t) i = Some tmp"
      by (subst (asm) resize_buckets.simps) (auto split: if_splits option.splits)
    show ?thesis
    proof (cases "tmp = nullptr")
      case e: True
      with "1.prems"(1) True g l have "resize_buckets F newSize t (Suc i) newTable = Some a'"
        by (subst (asm) resize_buckets.simps) simp
      from "1.IH"(1) [OF True g l e this "1.prems"(2)] show ?thesis .
    next
      case ne: False
      with "1.prems"(1) True g l obtain nt where r: "rehash_chain F newSize tmp newTable = Some nt"
        and d: "delete_mutex True" and rest: "resize_buckets F newSize t (Suc i) nt = Some a'"
        by (subst (asm) resize_buckets.simps) (auto split: if_splits option.splits)
      from r "1.prems"(2) have "array_ok F newSize nt" by (rule rehash_chain_ok)
      with "1.IH"(2) [OF True g l ne r d rest] show ?thesis .
    qed
  qed
qed

lemma load_new_array: "load (new_array n) i = None"
  by (simp add: load_def new_array_def)

lemma array_ok_new_array: "array_ok F n (new_array n)"
  by (simp add: array_ok_iff load_new_array)

lemma well_formed_resize:
  assumes "HashMap_resize F n t = Return u t'"
  shows "well_formed F t'"
proof -
  from assms obtain a where a: "resize_buckets F n t 0 (new_array n) = Some a"
    and t': "t' = \<lparr>m_size = n, m_table = a, m_mutexes = new_array n\<rparr>"
    by (auto simp: HashMap_resize_def split: option.splits if_splits)
  from a have "array_ok F n a" using array_ok_new_array by (rule resize_buckets_ok)
  then show ?thesis by (simp add: well_formed_def t')
qed

lemma well_formed_sized: "well_formed F (HashMap_sized n)"
  by (auto simp: well_formed_def HashMap_sized_def allocateTableAndMutexes_def array_ok_iff load_def chain_ok_nullptr
      split: if_splits cell.splits)

lemma reachable_well_formed: "reachable F t \<Longrightarrow> well_formed F t"
  by (induction rule: reachable.induct)
     (auto intro: well_formed_sized well_formed_insert well_formed_remove well_formed_resize)

subsection \<open>What insert and remove do to a chain\<close>

lemma valid_load:
  "valid t \<Longrightarrow> i < m_size t \<Longrightarrow> load (m_table t) i = Some (chain_at t i)"
  using initialised_load [of "m_table t" "m_size t" i] by (auto simp: valid_def chain_at_def)

lemma valid_bucket_chain:
  assumes "valid t" "0 < m_size t"
  shows "bucket F t key = Some (F key mod m_size t, chain_at t (F key mod m_size t))"
proof -
  from valid_bucket [OF assms] obtain tmp where b: "bucket F t key = Some (F key mod m_size t, tmp)"
    by blast
  then have "load (m_table t) (F key mod m_size t) = Some tmp" by (simp add: bucket_index)
  then have "chain_at t (F key mod m_size t) = tmp" by (simp add: chain_at_def)
  with b show ?thesis by simp
qed

lemma chain_at_store:
  assumes "load (m_table t) i = Some q"
  shows "chain_at (t\<lparr>m_table := store (m_table t) i p\<rparr>) j = (if j = i then p else chain_at t j)"
  by (simp add: chain_at_def load_store [OF assms])

lemma scan_nullptr_iff: "scan k p = nullptr \<longleftrightarrow> k \<notin> fst ` set (entries p)"
  by (induction p) auto

lemma found_None_iff: "found k p = None \<longleftrightarrow> k \<notin> fst ` set (entries p)"
  by (induction p) (auto simp: found_def)

lemma found_Some_iff_distinct:
  "distinct (map fst (entries p)) \<Longrightarrow> found k p = Some v \<longleftrightarrow> (k, v) \<in> set (entries p)"
  by (induction p) (auto simp: found_def rev_image_eqI)

lemma insert_chain_present:
  "k \<in> fst ` set (entries p) \<Longrightarrow>
     \<exists>xs v0 ys. entries p = xs @ (k, v0) # ys \<and> k \<notin> fst ` set xs \<and>
       entries (insert_chain k v p) = xs @ (k, v) # ys"
proof (induction p)
  case nullptr
  then show ?case by simp
next
  case (Element k' v' n)
  show ?case
  proof (cases "k' = k")
    case True
    then have "entries (Element k' v' n) = [] @ (k, v') # entries n \<and> k \<notin> fst ` set [] \<and>
       entries (insert_chain k v (Element k' v' n)) = [] @ (k, v) # entries n" by simp
    then show ?thesis by blast
  next
    case False
    with Element.prems have "k \<in> fst ` set (entries n)" by auto
    from Element.IH [OF this] obtain xs v0 ys where
      *: "entries n = xs @ (k, v0) # ys" "k \<notin> fst ` set xs" "entries (insert_chain k v n) = xs @ (k, v) # ys"
      by blast
    from * have "n \<noteq> nullptr" by auto
    with False * have "entries (Element k' v' n) = ((k', v') # xs) @ (k, v0) # ys \<and>
       k \<notin> fst ` set ((k', v') # xs) \<and>
       entries (insert_chain k v (Element k' v' n)) = ((k', v') # xs) @ (k, v) # ys" by auto
    then show ?thesis by blast
  qed
qed

lemma insert_chain_absent:
  "k \<notin> fst ` set (entries p) \<Longrightarrow> entries (insert_chain k v p) = entries p @ [(k, v)]"
  by (induction p) auto

lemma unlink_present:
  "k \<in> fst ` set (entries p) \<Longrightarrow>
     \<exists>xs v0 ys. entries p = xs @ (k, v0) # ys \<and> k \<notin> fst ` set xs \<and> entries (unlink k p) = xs @ ys"
proof (induction p)
  case nullptr
  then show ?case by simp
next
  case (Element k' v' n)
  show ?case
  proof (cases "k' = k")
    case True
    then have "entries (Element k' v' n) = [] @ (k, v') # entries n \<and> k \<notin> fst ` set [] \<and>
       entries (unlink k (Element k' v' n)) = [] @ entries n" by simp
    then show ?thesis by blast
  next
    case False
    with Element.prems have "k \<in> fst ` set (entries n)" by auto
    from Element.IH [OF this] obtain xs v0 ys where
      *: "entries n = xs @ (k, v0) # ys" "k \<notin> fst ` set xs" "entries (unlink k n) = xs @ ys"
      by blast
    with False have "entries (Element k' v' n) = ((k', v') # xs) @ (k, v0) # ys \<and>
       k \<notin> fst ` set ((k', v') # xs) \<and>
       entries (unlink k (Element k' v' n)) = ((k', v') # xs) @ ys" by auto
    then show ?thesis by blast
  qed
qed

lemma unlink_gone:
  "distinct (map fst (entries p)) \<Longrightarrow> k \<notin> fst ` set (entries (unlink k p))"
proof (induction p)
  case nullptr
  then show ?case by simp
next
  case (Element k' v' n)
  then show ?case by (auto simp: rev_image_eqI)
qed

lemma entries_in_contents:
  "i < m_size t \<Longrightarrow> set (entries (chain_at t i)) \<subseteq> set (contents t)"
  by (auto simp: contents_def)

lemma contents_placed:
  assumes "valid t" "well_formed F t" "(k, v) \<in> set (contents t)"
  shows "0 < m_size t \<and> (k, v) \<in> set (entries (chain_at t (F k mod m_size t)))"
proof -
  from assms(3) obtain i where i: "i < m_size t" and e: "(k, v) \<in> set (entries (chain_at t i))"
    by (auto simp: contents_def)
  from assms(1) i have "load (m_table t) i = Some (chain_at t i)" by (rule valid_load)
  with assms(2) i have "chain_ok F (m_size t) i (chain_at t i)" by (simp add: well_formed_def array_ok_iff)
  with e have "F k mod m_size t = i" by (auto simp: chain_ok_def list_all_iff)
  with i e show ?thesis by auto
qed

subsection \<open>Resizing leaves no usable table\<close>

lemma resize_then_keyed_undefined:
  assumes "HashMap_resize F n t = Return u t'"
  shows "bucket F t' k = None"
proof -
  from assms have "m_size t' = n" "m_mutexes t' = new_array n"
    by (auto simp: HashMap_resize_def split: option.splits if_splits)
  then show ?thesis by (simp add: bucket_def hash_def lock_guard_def load_new_array)
qed

subsection \<open>Traversal\<close>

lemma rest_0: "rest t 0 = contents t"
  by (simp add: rest_def contents_def)

lemma rest_end: "m_size t \<le> i \<Longrightarrow> rest t i = []"
  by (simp add: rest_def)

lemma rest_step: "i < m_size t \<Longrightarrow> rest t i = entries (chain_at t i) @ rest t (Suc i)"
  by (simp add: rest_def upt_conv_Cons)

lemma skip_empty_valid:
  "valid t \<Longrightarrow> \<exists>j. skip_empty t i = Some j \<and> i \<le> j \<and> rest t j = rest t i \<and>
     (j < m_size t \<longrightarrow> chain_at t j \<noteq> nullptr)"
proof (induction t i rule: skip_empty.induct)
  case (1 t idx)
  show ?case
  proof (cases "idx < m_size t")
    case False
    then show ?thesis by (subst skip_empty.simps) simp
  next
    case True
    with "1.prems" have l: "load (m_table t) idx = Some (chain_at t idx)" by (simp add: valid_load)
    show ?thesis
    proof (cases "chain_at t idx = nullptr")
      case False
      with True l show ?thesis by (subst skip_empty.simps) simp
    next
      case e: True
      from "1.IH" [OF True l e "1.prems"] obtain j where
        j: "skip_empty t (Suc idx) = Some j" "Suc idx \<le> j" "rest t j = rest t (Suc idx)"
           "j < m_size t \<longrightarrow> chain_at t j \<noteq> nullptr" by blast
      have "skip_empty t idx = Some j" using True l e j(1) by (subst skip_empty.simps) simp
      moreover have "rest t idx = rest t (Suc idx)" using True e by (simp add: rest_step)
      ultimately show ?thesis using j by auto
    qed
  qed
qed

lemma visit_all_from:
  "valid t \<Longrightarrow> i < m_size t \<Longrightarrow> p \<noteq> nullptr \<Longrightarrow>
     visit_all t \<lparr>i_curr = p, i_idx = i\<rparr> = Some (entries p @ rest t (Suc i))"
proof (induction "m_size t - i" arbitrary: i p rule: less_induct)
  case less
  note outer = less
  from \<open>p \<noteq> nullptr\<close> show ?case
  proof (induction p)
    case nullptr
    then show ?case by simp
  next
    case (Element k v n)
    show ?case
    proof (cases "n = nullptr")
      case False
      with Element.IH have "visit_all t \<lparr>i_curr = n, i_idx = i\<rparr> = Some (entries n @ rest t (Suc i))"
        by simp
      with False show ?thesis
        by (subst visit_all.simps) (simp add: HashMapIter_next_def)
    next
      case True
      from skip_empty_valid [OF outer(2), of "Suc i"] obtain j where
        j: "skip_empty t (Suc i) = Some j" "Suc i \<le> j" "rest t j = rest t (Suc i)"
           "j < m_size t \<longrightarrow> chain_at t j \<noteq> nullptr" by blast
      show ?thesis
      proof (cases "j < m_size t")
        case jlt: True
        with outer(2) have l: "load (m_table t) j = Some (chain_at t j)" by (simp add: valid_load)
        have "m_size t - j < m_size t - i" using jlt j(2) by simp
        from outer(1) [OF this outer(2) jlt] j(4) jlt
        have "visit_all t \<lparr>i_curr = chain_at t j, i_idx = j\<rparr> = Some (entries (chain_at t j) @ rest t (Suc j))"
          by simp
        then have "visit_all t \<lparr>i_curr = chain_at t j, i_idx = j\<rparr> = Some (rest t (Suc i))"
          using jlt j(3) by (simp add: rest_step)
        with True j(1) jlt l show ?thesis
          by (subst visit_all.simps) (simp add: HashMapIter_next_def position_def)
      next
        case jge: False
        then have "rest t (Suc i) = []" using j(3) by (simp add: rest_end)
        moreover have "visit_all t \<lparr>i_curr = nullptr, i_idx = j\<rparr> = Some []"
          by (subst visit_all.simps) simp
        ultimately show ?thesis using True j(1) jge
          by (subst visit_all.simps) (simp add: HashMapIter_next_def position_def)
      qed
    qed
  qed
qed

lemma visit_all_end: "visit_all t \<lparr>i_curr = nullptr, i_idx = i\<rparr> = Some []"
  by (subst visit_all.simps) simp

lemma HashMapIter_traversal:
  assumes "valid t"
  shows "\<exists>it. HashMapIter_first t = Some it \<and> visit_all t it = Some (contents t)"
proof -
  from skip_empty_valid [OF assms, of 0] obtain j where
    j: "skip_empty t 0 = Some j" "rest t j = rest t 0" "j < m_size t \<longrightarrow> chain_at t j \<noteq> nullptr"
    by blast
  show ?thesis
  proof (cases "j < m_size t")
    case True
    with assms have l: "load (m_table t) j = Some (chain_at t j)" by (simp add: valid_load)
    from True j(3) have "visit_all t \<lparr>i_curr = chain_at t j, i_idx = j\<rparr> = Some (entries (chain_at t j) @ rest t (Suc j))"
      using visit_all_from [OF assms True] by simp
    then have "visit_all t \<lparr>i_curr = chain_at t j, i_idx = j\<rparr> = Some (contents t)"
      using True j(2) by (simp add: rest_step rest_0)
    with j(1) True l show ?thesis by (simp add: HashMapIter_first_def position_def)
  next
    case False
    then have "contents t = []" using j(2) by (simp add: rest_end rest_0)
    with j(1) False show ?thesis by (simp add: HashMapIter_first_def position_def visit_all_end)
  qed
qed

lemma Iterator_traversal:
  assumes "valid t"
  shows "\<exists>it j. HashMap_begin t = Some it \<and> skip_empty t 0 = Some j \<and>
           visit_all t it =
             Some ((if 0 < j \<and> j < m_size t then entries (chain_at t j) else []) @ contents t)"
proof -
  from skip_empty_valid [OF assms, of 0] obtain j where
    j: "skip_empty t 0 = Some j" "rest t j = rest t 0" "j < m_size t \<longrightarrow> chain_at t j \<noteq> nullptr"
    by blast
  show ?thesis
  proof (cases "j < m_size t")
    case True
    with assms have l: "load (m_table t) j = Some (chain_at t j)" by (simp add: valid_load)
    have b: "HashMap_begin t = Some \<lparr>i_curr = chain_at t j, i_idx = 0\<rparr>"
      using j(1) True l by (simp add: HashMap_begin_def position_def)
    from True have z: "0 < m_size t" by simp
    then have c0: "contents t = entries (chain_at t 0) @ rest t (Suc 0)"
      using rest_step [of 0 t] by (simp add: rest_0)
    from True j(3) have v: "visit_all t \<lparr>i_curr = chain_at t j, i_idx = 0\<rparr> = Some (entries (chain_at t j) @ rest t (Suc 0))"
      using visit_all_from [OF assms z] by simp
    show ?thesis
    proof (cases "j = 0")
      case True
      with v c0 have "visit_all t \<lparr>i_curr = chain_at t j, i_idx = 0\<rparr> = Some (contents t)"
        by simp
      with b j(1) True show ?thesis by simp
    next
      case False
      have "chain_at t 0 = nullptr"
      proof (rule ccontr)
        assume "chain_at t 0 \<noteq> nullptr"
        moreover from assms z have "load (m_table t) 0 = Some (chain_at t 0)" by (simp add: valid_load)
        ultimately have "skip_empty t 0 = Some 0" using z by (subst skip_empty.simps) simp
        with j(1) False show False by simp
      qed
      then have "rest t (Suc 0) = contents t" using c0 by simp
      with v b j(1) False True show ?thesis by simp
    qed
  next
    case False
    then have "contents t = []" using j(2) by (simp add: rest_end rest_0)
    with j(1) False show ?thesis by (simp add: HashMap_begin_def position_def visit_all_end)
  qed
qed

subsection \<open>Destruction, move and copy\<close>

lemma destroy_buckets_valid: "valid t \<Longrightarrow> destroy_buckets t i"
proof (induction t i rule: destroy_buckets.induct)
  case (1 t i)
  show ?case
  proof (cases "i < m_size t")
    case False
    then show ?thesis by (subst destroy_buckets.simps) simp
  next
    case True
    with "1.prems" obtain m where m: "load (m_mutexes t) i = Some m"
      unfolding valid_def using initialised_load by blast
    from "1.prems" True have l: "load (m_table t) i = Some (chain_at t i)" by (rule valid_load)
    from m have g: "lock_guard (m_mutexes t) i" by (simp add: lock_guard_def)
    from "1.IH"(1) [OF True g l _ "1.prems"] "1.IH"(2) [OF True g l _ _ "1.prems"] True g l show ?thesis
      by (subst destroy_buckets.simps) (auto simp: delete_mutex_def)
  qed
qed

lemma destroy_valid:
  "valid t \<Longrightarrow> destroyTableAndMutexes t = Some \<lparr>m_size = 0, m_table = Dangling, m_mutexes = Dangling\<rparr>"
  by (auto simp: destroyTableAndMutexes_def destroy_buckets_valid delete_array_def valid_def initialised_def
      split: arrayptr.splits)

lemma destroy_null: "m_table t = nullarray \<Longrightarrow> destroyTableAndMutexes t = Some t"
  by (simp add: destroyTableAndMutexes_def)

lemma destroy_returns:
  "valid t \<or> m_table t = nullarray \<Longrightarrow> \<exists>d. destroyTableAndMutexes t = Some d"
  using destroy_valid destroy_null by blast

lemma move_construct_overwrites:
  "move_construct (s(this := d)) this other = move_construct s this other" if "this \<noteq> other"
  using that by (simp add: move_construct_def)

lemma entries_inject: "entries p = entries q \<Longrightarrow> p = q"
proof (induction p arbitrary: q)
  case nullptr
  then show ?case by (cases q) auto
next
  case (Element k v n)
  then show ?case by (cases q) auto
qed

lemma initialised_eqI:
  assumes "initialised a n" "initialised b n" "\<And>i. i < n \<Longrightarrow> load a i = load b i"
  shows "a = b"
proof -
  from assms(1) obtain cs where a: "a = Array cs" "length cs = n" "Indeterminate \<notin> set cs"
    by (auto simp: initialised_def split: arrayptr.splits)
  from assms(2) obtain ds where b: "b = Array ds" "length ds = n" "Indeterminate \<notin> set ds"
    by (auto simp: initialised_def split: arrayptr.splits)
  have "cs ! i = ds ! i" if "i < n" for i
  proof -
    from that a b have "cs ! i \<noteq> Indeterminate" "ds ! i \<noteq> Indeterminate"
      by (metis nth_mem)+
    with assms(3) [OF that] that a b show ?thesis
      by (cases "cs ! i"; cases "ds ! i") (auto simp: load_def)
  qed
  with a b show ?thesis by (simp add: nth_equalityI)
qed

lemma initialised_mutexes: "initialised ms n \<Longrightarrow> ms = Array (replicate n (Value Mutex))"
proof (rule initialised_eqI)
  show "initialised (Array (replicate n (Value Mutex))) n" by (simp add: initialised_def)
next
  fix i assume "initialised ms n" "i < n"
  then obtain m where "load ms i = Some m" using initialised_load by blast
  moreover have "m = Mutex" by (cases m) simp
  ultimately show "load ms i = load (Array (replicate n (Value Mutex))) i"
    using \<open>i < n\<close> by (simp add: load_def)
qed

lemma valid_eqI:
  assumes "valid a" "valid b" "m_size a = m_size b" "\<And>i. i < m_size a \<Longrightarrow> chain_at a i = chain_at b i"
  shows "a = (b :: ('k, 'v) HashMap)"
proof -
  have "m_table a = m_table b"
  proof (rule initialised_eqI)
    show "initialised (m_table a) (m_size a)" using assms(1) by (simp add: valid_def)
    show "initialised (m_table b) (m_size a)" using assms(2,3) by (simp add: valid_def)
    fix i assume "i < m_size a"
    then show "load (m_table a) i = load (m_table b) i"
      using assms by (simp add: valid_load)
  qed
  moreover have "m_mutexes a = m_mutexes b"
  proof -
    have "m_mutexes a = Array (replicate (m_size a) (Value Mutex))"
      using assms(1) by (intro initialised_mutexes) (simp add: valid_def)
    moreover have "m_mutexes b = Array (replicate (m_size a) (Value Mutex))"
      using assms(2,3) by (intro initialised_mutexes) (simp add: valid_def)
    ultimately show ?thesis by simp
  qed
  ultimately show ?thesis using assms(3) by simp
qed

lemma valid_allocate: "valid (allocateTableAndMutexes n)"
  by (simp add: valid_def initialised_def allocateTableAndMutexes_def)

lemma chain_at_allocate: "chain_at (allocateTableAndMutexes n) i = nullptr"
  by (simp add: chain_at_def load_def allocateTableAndMutexes_def)

lemma chain_at_outside: "valid t \<Longrightarrow> m_size t \<le> i \<Longrightarrow> chain_at t i = nullptr"
  by (auto simp: chain_at_def load_def valid_def initialised_def split: arrayptr.splits)

lemma copy_chain_appends:
  assumes "valid this" "0 < m_size this"
    and "\<forall>e\<in>set (entries p). F (fst e) mod m_size this = i"
    and "distinct (map fst (entries p))"
    and "fst ` set (entries p) \<inter> fst ` set (entries (chain_at this i)) = {}"
  shows "\<exists>this'. copy_chain F p this = Some this' \<and> valid this' \<and> m_size this' = m_size this \<and>
           entries (chain_at this' i) = entries (chain_at this i) @ entries p \<and>
           (\<forall>j. j \<noteq> i \<longrightarrow> chain_at this' j = chain_at this j)"
  using assms
proof (induction p arbitrary: this)
  case nullptr
  then show ?case by simp
next
  case (Element k v n)
  let ?q = "chain_at this i"
  define this1 where "this1 = this\<lparr>m_table := store (m_table this) i (insert_chain k v ?q)\<rparr>"
  from Element.prems(3) have i: "F k mod m_size this = i" by simp
  with Element.prems(2) have ilt: "i < m_size this" by auto
  have b: "bucket F this k = Some (i, ?q)"
    using valid_bucket_chain [OF Element.prems(1,2), of F k] i by simp
  then have ins: "HashMap_insert F k v this = Return () this1" by (simp add: HashMap_insert_def this1_def)
  have l: "load (m_table this) i = Some ?q" using Element.prems(1) ilt by (rule valid_load)
  have c1: "chain_at this1 j = (if j = i then insert_chain k v ?q else chain_at this j)" for j
    unfolding this1_def by (rule chain_at_store [OF l])
  have v1: "valid this1" "m_size this1 = m_size this"
    using Element.prems(1) ilt by (simp_all add: this1_def valid_store)
  from Element.prems(5) have "k \<notin> fst ` set (entries ?q)" by auto
  then have e1: "entries (chain_at this1 i) = entries ?q @ [(k, v)]"
    by (simp add: c1 insert_chain_absent)
  have "fst ` set (entries n) \<inter> fst ` set (entries (chain_at this1 i)) = {}"
    using Element.prems(4,5) by (auto simp: e1)
  with Element.IH [of this1] v1 Element.prems(2,3,4) obtain this' where
    *: "copy_chain F n this1 = Some this'" "valid this'" "m_size this' = m_size this1"
       "entries (chain_at this' i) = entries (chain_at this1 i) @ entries n"
       "\<forall>j. j \<noteq> i \<longrightarrow> chain_at this' j = chain_at this1 j"
    by auto
  from * ins v1 e1 c1 show ?case by auto
qed

lemma copy_buckets_copies:
  assumes "valid other" "well_formed F other" "valid this" "m_size this = m_size other"
    and "\<forall>j. j < i \<longrightarrow> chain_at this j = chain_at other j"
    and "\<forall>j. i \<le> j \<longrightarrow> chain_at this j = nullptr"
  shows "\<exists>this'. copy_buckets F other i this = Some this' \<and> valid this' \<and> m_size this' = m_size other \<and>
           (\<forall>j. j < m_size other \<longrightarrow> chain_at this' j = chain_at other j)"
  using assms
proof (induction F other i this rule: copy_buckets.induct)
  case (1 F other i this)
  show ?case
  proof (cases "i < m_size other")
    case False
    with "1.prems" show ?thesis by (subst copy_buckets.simps) simp
  next
    case True
    let ?p = "chain_at other i"
    from "1.prems"(1) True obtain m where "load (m_mutexes other) i = Some m"
      unfolding valid_def using initialised_load by blast
    then have g: "lock_guard (m_mutexes other) i" by (simp add: lock_guard_def)
    have l: "load (m_table other) i = Some ?p" using "1.prems"(1) True by (rule valid_load)
    from "1.prems"(2) True l have ok: "chain_ok F (m_size other) i ?p"
      by (simp add: well_formed_def array_ok_iff)
    have "\<exists>this'. copy_chain F ?p this = Some this' \<and> valid this' \<and> m_size this' = m_size this \<and>
           entries (chain_at this' i) = entries (chain_at this i) @ entries ?p \<and>
           (\<forall>j. j \<noteq> i \<longrightarrow> chain_at this' j = chain_at this j)"
    proof (rule copy_chain_appends)
      show "valid this" by fact
      show "0 < m_size this" using True "1.prems"(4) by simp
      show "\<forall>e\<in>set (entries ?p). F (fst e) mod m_size this = i"
        using ok "1.prems"(4) by (simp add: chain_ok_def list_all_iff)
      show "distinct (map fst (entries ?p))" using ok by (simp add: chain_ok_def)
      show "fst ` set (entries ?p) \<inter> fst ` set (entries (chain_at this i)) = {}"
        using "1.prems"(6) by simp
    qed
    then obtain this1 where c: "copy_chain F ?p this = Some this1" and v1: "valid this1"
      and s1: "m_size this1 = m_size this"
      and e1: "entries (chain_at this1 i) = entries (chain_at this i) @ entries ?p"
      and o1: "\<forall>j. j \<noteq> i \<longrightarrow> chain_at this1 j = chain_at this j" by blast
    from e1 "1.prems"(6) have "entries (chain_at this1 i) = entries ?p" by simp
    then have ci: "chain_at this1 i = ?p" by (rule entries_inject)
    have lo: "\<forall>j. j < Suc i \<longrightarrow> chain_at this1 j = chain_at other j"
      using ci o1 "1.prems"(5) by (auto simp: less_Suc_eq)
    have hi: "\<forall>j. Suc i \<le> j \<longrightarrow> chain_at this1 j = nullptr"
      using o1 "1.prems"(6) by auto
    from "1.IH" [OF True g l c "1.prems"(1,2) v1 _ lo hi] s1 "1.prems"(4)
    obtain this' where "copy_buckets F other (Suc i) this1 = Some this'" "valid this'"
      "m_size this' = m_size other" "\<forall>j. j < m_size other \<longrightarrow> chain_at this' j = chain_at other j"
      by auto
    with True g l c show ?thesis by (subst copy_buckets.simps) simp
  qed
qed

lemma copy_buckets_equal:
  assumes "valid other" "well_formed F other"
  shows "copy_buckets F other 0 (allocateTableAndMutexes (m_size other)) = Some other"
proof -
  have "m_size (allocateTableAndMutexes (m_size other) :: ('a, 'b) HashMap) = m_size other"
    by (simp add: allocateTableAndMutexes_def)
  from copy_buckets_copies [OF assms valid_allocate this, where i = 0]
  obtain this' where c: "copy_buckets F other 0 (allocateTableAndMutexes (m_size other)) = Some this'"
    and v: "valid this'" and s: "m_size this' = m_size other"
    and e: "\<forall>j. j < m_size other \<longrightarrow> chain_at this' j = chain_at other j"
    by (auto simp: chain_at_allocate)
  have "this' = other" using v assms(1) s e by (intro valid_eqI) auto
  with c show ?thesis by simp
qed

subsection \<open>Runs stay within the reachable states\<close>

lemma apply_op_reachable:
  assumes "reachable F t" "apply_op F x t = Return u t' \<or> apply_op F x t = Throw e t'"
  shows "reachable F t'"
proof (cases x)
  case (Insert k v)
  with assms show ?thesis by (auto simp: insert_never_throws intro: reachable.inserted)
next
  case (Remove k)
  with assms show ?thesis by (auto simp: remove_throws intro: reachable.removed)
qed

lemma run_reachable: "reachable F t \<Longrightarrow> run F ops t = Some t' \<Longrightarrow> reachable F t'"
proof (induction ops arbitrary: t)
  case Nil
  then show ?case by simp
next
  case (Cons x xs)
  then show ?case
    by (cases "apply_op F x t") (auto intro: apply_op_reachable)
qed

subsection \<open>Resizing a table that holds entries\<close>

lemma rehash_chain_new_array:
  "p \<noteq> nullptr \<Longrightarrow> rehash_chain F n p (new_array n) = None"
  by (cases p) (simp_all add: load_new_array)

lemma resize_buckets_nonempty:
  assumes "valid t" "rest t i \<noteq> []"
  shows "resize_buckets F n t i (new_array n) = None"
  using assms
proof (induction F n t i "new_array n :: ('a, 'b) ElementPtr arrayptr" rule: resize_buckets.induct)
  case (1 F newSize t i)
  show ?case
  proof (cases "i < m_size t")
    case False
    with "1.prems"(2) show ?thesis by (simp add: rest_end)
  next
    case True
    with "1.prems"(1) have l: "load (m_table t) i = Some (chain_at t i)" by (simp add: valid_load)
    show ?thesis
    proof (cases "lock_guard (m_mutexes t) i")
      case False
      with True show ?thesis by (subst resize_buckets.simps) simp
    next
      case g: True
      show ?thesis
      proof (cases "chain_at t i = nullptr")
        case e: True
        with "1.prems"(2) True have "rest t (Suc i) \<noteq> []" by (simp add: rest_step)
        from "1.hyps"(1) [OF True g l e "1.prems"(1) this] True g l e show ?thesis
          by (subst resize_buckets.simps) simp
      next
        case False
        with True g l show ?thesis
          by (subst resize_buckets.simps) (simp add: rehash_chain_new_array)
      qed
    qed
  qed
qed

lemma resize_nonempty_undefined:
  "valid t \<Longrightarrow> contents t \<noteq> [] \<Longrightarrow> HashMap_resize F n t = Undefined"
  by (simp add: HashMap_resize_def resize_buckets_nonempty rest_0)

subsection \<open>The concrete tables are states of the code\<close>

lemma example_table_built:
  "run (\<lambda>k. k) [Insert 0 ''zero'', Insert 2 ''two'', Insert 1 ''one''] (HashMap_sized 2) = Some example_table"
  by code_simp

subsection \<open>Placement under inserts and removes; the move constructor\<close>

lemma hash_placement_insert_remove:
  assumes "reachable F t" "i < m_size t" "load (m_table t) i = Some p" "(k, v) \<in> set (entries p)"
  shows "hash F t k = Some i"
proof -
  from assms(1) have "well_formed F t" by (rule reachable_well_formed)
  with assms(2,3) have "chain_ok F (m_size t) i p" by (simp add: well_formed_def array_ok_iff)
  with assms(4) have "F k mod m_size t = i" by (auto simp: chain_ok_def list_all_iff)
  with assms(2) show ?thesis by (auto simp: hash_def)
qed

lemma move_construct_transfers:
  assumes "this \<noteq> other"
  shows "move_construct s this other this = s other \<and>
         move_construct s this other other = HashMap_default \<and>
         getSize (move_construct s this other other) = 0 \<and>
         (\<forall>a. a \<noteq> this \<and> a \<noteq> other \<longrightarrow> move_construct s this other a = s a)"
  using assms by (simp add: move_construct_def HashMap_default_def getSize_def)

lemma move_assign_body_transfers:
  assumes "this \<noteq> other" "valid (s this) \<or> m_table (s this) = nullarray"
  shows "move_assign_body s this other = Some (move_construct s this other)"
proof -
  from destroy_returns [OF assms(2)] obtain d where "destroyTableAndMutexes (s this) = Some d" by blast
  with assms(1) show ?thesis by (simp add: move_assign_body_def move_construct_overwrites)
qed

lemma move_assign_undefined: "move_assign s this other = Undefined"
  by (simp add: move_assign_def split: option.splits)

section \<open>The table in memory\<close>

subsection \<open>Chains in memory\<close>

text \<open>A chain in memory is read as the chain of the first view; cells outside it do not matter.\<close>

lemma path_frame: "\<forall>a\<in>set as. c' a = c a \<Longrightarrow> path c' p as = path c p as"
  by (induction as arbitrary: p) (auto split: option.splits)

lemma chain_abs_frame: "\<forall>a\<in>set as. c' a = c a \<Longrightarrow> chain_abs c' as = chain_abs c as"
  by (induction as) (auto split: option.splits)

lemma path_live: "path c p as \<Longrightarrow> a \<in> set as \<Longrightarrow> \<exists>e. c a = Some e"
  by (induction as arbitrary: p) (auto split: option.splits)

lemma heap_scan_path:
  "path c p as \<Longrightarrow>
     \<exists>q. heap_scan c key p = Some q \<and>
       (q = None \<longrightarrow> found key (chain_abs c as) = None) \<and>
       (\<forall>a. q = Some a \<longrightarrow> (\<exists>e. c a = Some e \<and> found key (chain_abs c as) = Some (e_value e)))"
proof (induction as arbitrary: p)
  case Nil
  then show ?case by (subst heap_scan.simps) (simp add: found_def)
next
  case (Cons a as)
  then obtain e where e: "p = Some a" "c a = Some e" "path c (e_next e) as"
    by (auto split: option.splits)
  show ?case
  proof (cases "e_key e = key")
    case True
    with e show ?thesis by (subst heap_scan.simps) (simp add: found_def)
  next
    case False
    have "found key (chain_abs c (a # as)) = found key (chain_abs c as)"
      using e False by (simp add: found_def)
    with Cons.IH [OF e(3)] e False show ?thesis by (subst heap_scan.simps) simp
  qed
qed

subsection \<open>The representation of a table\<close>

text \<open>What \<open>rep\<close> gives for one bucket, and the lookup in memory against the lookup of the first view.\<close>

lemma owned_iff: "a \<in> owned n ass \<longleftrightarrow> (\<exists>i<n. a \<in> set (ass i))"
  by (auto simp: owned_def)

lemma rep_bucket:
  "rep c pt ass t \<Longrightarrow> i < m_size t \<Longrightarrow>
     \<exists>p. load (t_table pt) i = Some p \<and> path c p (ass i) \<and> chain_at t i = chain_abs c (ass i)"
  by (fastforce simp: rep_def list_all_iff split: option.splits)

lemma distinct_concat_map_upt:
  "distinct (concat (map f [0..<n])) \<longleftrightarrow>
     (\<forall>i<n. distinct (f i)) \<and> (\<forall>i<n. \<forall>j<n. i \<noteq> j \<longrightarrow> set (f i) \<inter> set (f j) = {})"
proof (induction n)
  case 0
  then show ?case by simp
next
  case (Suc n)
  have s: "set (concat (map f [0..<n])) = (\<Union>i<n. set (f i))" by auto
  have "distinct (concat (map f [0..<Suc n])) \<longleftrightarrow>
      distinct (concat (map f [0..<n])) \<and> distinct (f n) \<and> (\<forall>i<n. set (f i) \<inter> set (f n) = {})"
    unfolding upt_Suc_append [OF le0] map_append concat_append distinct_append s by auto
  also have "\<dots> \<longleftrightarrow> (\<forall>i<Suc n. distinct (f i)) \<and>
      (\<forall>i<Suc n. \<forall>j<Suc n. i \<noteq> j \<longrightarrow> set (f i) \<inter> set (f j) = {})"
    unfolding Suc.IH
  proof (intro iffI conjI allI impI; elim conjE)
    fix i assume "\<forall>i<n. distinct (f i)" "distinct (f n)" "i < Suc n"
    then show "distinct (f i)" by (cases "i = n") auto
  next
    fix i j
    assume a: "\<forall>i<n. \<forall>j<n. i \<noteq> j \<longrightarrow> set (f i) \<inter> set (f j) = {}"
      "\<forall>i<n. set (f i) \<inter> set (f n) = {}" "i < Suc n" "j < Suc n" "i \<noteq> j"
    show "set (f i) \<inter> set (f j) = {}"
    proof (cases "i = n")
      case True
      with a have "j < n" by simp
      with a(2) True show ?thesis by (simp add: Int_commute)
    next
      case False
      with a(3) have i: "i < n" by simp
      show ?thesis
      proof (cases "j = n")
        case True
        with a(2) i show ?thesis by simp
      next
        case False
        with a(4) have "j < n" by simp
        with a(1,5) i show ?thesis by simp
      qed
    qed
  next
    fix i assume "\<forall>i<Suc n. distinct (f i)" "i < n"
    then show "distinct (f i)" by simp
  next
    fix i j assume "\<forall>i<Suc n. \<forall>j<Suc n. i \<noteq> j \<longrightarrow> set (f i) \<inter> set (f j) = {}" "i < n" "j < n" "i \<noteq> j"
    then show "set (f i) \<inter> set (f j) = {}" by simp
  next
    assume "\<forall>i<Suc n. distinct (f i)"
    then show "distinct (f n)" by simp
  next
    fix i assume "\<forall>i<Suc n. \<forall>j<Suc n. i \<noteq> j \<longrightarrow> set (f i) \<inter> set (f j) = {}" "i < n"
    then show "set (f i) \<inter> set (f n) = {}" by simp
  qed
  finally show ?case .
qed

lemma rep_distinct: "rep c pt ass t \<Longrightarrow> i < m_size t \<Longrightarrow> distinct (ass i)"
  by (simp add: rep_def distinct_concat_map_upt)

lemma rep_disjoint:
  "rep c pt ass t \<Longrightarrow> i < m_size t \<Longrightarrow> j < m_size t \<Longrightarrow> i \<noteq> j \<Longrightarrow> set (ass i) \<inter> set (ass j) = {}"
  by (simp add: rep_def distinct_concat_map_upt)

lemma rep_heap_bucket:
  assumes "rep (cells m) (tables m x) ass t" "0 < m_size t"
  shows "\<exists>p. heap_bucket F m x key = Some (F key mod m_size t, p) \<and>
           load (t_table (tables m x)) (F key mod m_size t) = Some p \<and>
           path (cells m) p (ass (F key mod m_size t)) \<and>
           chain_at t (F key mod m_size t) = chain_abs (cells m) (ass (F key mod m_size t))"
proof -
  let ?i = "F key mod m_size t"
  have i: "?i < m_size t" using assms(2) by simp
  from rep_bucket [OF assms(1) i] obtain p where p: "load (t_table (tables m x)) ?i = Some p"
    "path (cells m) p (ass ?i)" "chain_at t ?i = chain_abs (cells m) (ass ?i)" by blast
  from assms(1) have v: "valid t" and s: "t_size (tables m x) = m_size t"
    and mu: "t_mutexes (tables m x) = m_mutexes t" by (simp_all add: rep_def)
  from v i obtain mx where "load (m_mutexes t) ?i = Some mx"
    unfolding valid_def using initialised_load by blast
  then have "lock_guard (t_mutexes (tables m x)) ?i" by (simp add: lock_guard_def mu)
  with p s assms(2) show ?thesis by (simp add: heap_bucket_def)
qed

lemma heap_bucket_size0: "t_size (tables m x) = 0 \<Longrightarrow> heap_bucket F m x key = None"
  by (simp add: heap_bucket_def)

lemma heap_lookup_rep:
  assumes "rep (cells m) (tables m x) ass t"
  shows "observe (heap_lookup F key x m) = observe (HashMap_lookup F key t)"
proof (cases "m_size t = 0")
  case True
  with assms have "t_size (tables m x) = 0" by (simp add: rep_def)
  then have "heap_lookup F key x m = Undefined" by (simp add: heap_lookup_def heap_bucket_size0)
  moreover from True have "HashMap_lookup F key t = Undefined"
    by (simp add: HashMap_lookup_def bucket_def hash_def)
  ultimately show ?thesis by (simp add: observe_def)
next
  case False
  then have s: "0 < m_size t" by simp
  let ?i = "F key mod m_size t"
  from rep_heap_bucket [OF assms s, of F key] obtain p where
    b: "heap_bucket F m x key = Some (?i, p)" and pa: "path (cells m) p (ass ?i)"
    and ab: "chain_at t ?i = chain_abs (cells m) (ass ?i)" by blast
  from assms have v: "valid t" by (simp add: rep_def)
  have vb: "bucket F t key = Some (?i, chain_at t ?i)" using v s by (rule valid_bucket_chain)
  from heap_scan_path [OF pa, of key] obtain q where q: "heap_scan (cells m) key p = Some q"
    "q = None \<longrightarrow> found key (chain_abs (cells m) (ass ?i)) = None"
    "\<forall>a. q = Some a \<longrightarrow> (\<exists>e. cells m a = Some e \<and> found key (chain_abs (cells m) (ass ?i)) = Some (e_value e))"
    by blast
  show ?thesis
  proof (cases q)
    case None
    with q b vb ab show ?thesis by (simp add: heap_lookup_def lookup_found observe_def)
  next
    case (Some a)
    with q(3) obtain e where "cells m a = Some e" "found key (chain_abs (cells m) (ass ?i)) = Some (e_value e)"
      by blast
    with Some q(1) b vb ab show ?thesis by (simp add: heap_lookup_def lookup_found observe_def)
  qed
qed

lemma rep_iff:
  "rep c pt ass t \<longleftrightarrow>
     t_size pt = m_size t \<and> t_mutexes pt = m_mutexes t \<and> valid t \<and>
     initialised (t_table pt) (m_size t) \<and>
     (\<forall>i<m_size t. \<exists>p. load (t_table pt) i = Some p \<and> path c p (ass i) \<and>
        chain_at t i = chain_abs c (ass i)) \<and>
     (\<forall>i<m_size t. distinct (ass i)) \<and>
     (\<forall>i<m_size t. \<forall>j<m_size t. i \<noteq> j \<longrightarrow> set (ass i) \<inter> set (ass j) = {})"
proof -
  have "list_all (\<lambda>i. case load (t_table pt) i of None \<Rightarrow> False
          | Some p \<Rightarrow> path c p (ass i) \<and> chain_at t i = chain_abs c (ass i)) [0..<m_size t] \<longleftrightarrow>
        (\<forall>i<m_size t. \<exists>p. load (t_table pt) i = Some p \<and> path c p (ass i) \<and>
          chain_at t i = chain_abs c (ass i))"
    by (fastforce simp: list_all_iff split: option.splits)
  then show ?thesis unfolding rep_def distinct_concat_map_upt by blast
qed

lemma rep_update:
  assumes r: "rep c pt ass t" and i: "i < m_size t"
    and frame: "\<And>j a. j < m_size t \<Longrightarrow> j \<noteq> i \<Longrightarrow> a \<in> set (ass j) \<Longrightarrow> c' a = c a"
    and sz: "t_size pt' = t_size pt" and mu: "t_mutexes pt' = t_mutexes pt"
    and ini: "initialised (t_table pt') (m_size t)"
    and others: "\<And>j. j \<noteq> i \<Longrightarrow> load (t_table pt') j = load (t_table pt) j"
    and new: "load (t_table pt') i = Some p'" "path c' p' as'" "chain_abs c' as' = q"
    and dist: "distinct as'"
    and disj: "\<And>j. j < m_size t \<Longrightarrow> j \<noteq> i \<Longrightarrow> set as' \<inter> set (ass j) = {}"
  shows "rep c' pt' (ass(i := as')) (t\<lparr>m_table := store (m_table t) i q\<rparr>)"
proof -
  let ?t' = "t\<lparr>m_table := store (m_table t) i q\<rparr>"
  from r have v: "valid t" by (simp add: rep_iff)
  have l: "load (m_table t) i = Some (chain_at t i)" using v i by (rule valid_load)
  have v': "valid ?t'" using v i by (rule valid_store)
  have c': "chain_at ?t' j = (if j = i then q else chain_at t j)" for j
    by (rule chain_at_store [OF l])
  have b: "\<exists>p. load (t_table pt') j = Some p \<and> path c' p ((ass(i := as')) j) \<and>
        chain_at ?t' j = chain_abs c' ((ass(i := as')) j)" if "j < m_size t" for j
  proof (cases "j = i")
    case True
    with new show ?thesis by (simp add: c')
  next
    case False
    from r that obtain p where p: "load (t_table pt) j = Some p" "path c p (ass j)"
      "chain_at t j = chain_abs c (ass j)" unfolding rep_iff by blast
    have fr: "\<forall>a\<in>set (ass j). c' a = c a" using frame [OF that False] by blast
    from p False others [OF False] path_frame [OF fr, of p] chain_abs_frame [OF fr]
    show ?thesis by (simp add: c')
  qed
  have d: "distinct ((ass(i := as')) j)" if "j < m_size t" for j
    using r that dist by (simp add: rep_iff)
  have x: "set ((ass(i := as')) j) \<inter> set ((ass(i := as')) l) = {}"
    if "j < m_size t" "l < m_size t" "j \<noteq> l" for j l
  proof -
    from r that have o: "set (ass j) \<inter> set (ass l) = {}" unfolding rep_iff by blast
    show ?thesis
      using that o disj [of j] disj [of l] by (auto simp: Int_commute)
  qed
  from r sz mu v' ini b d x show ?thesis unfolding rep_iff by simp
qed

lemma held_owned_fresh:
  "held m x ass t \<Longrightarrow> i < m_size t \<Longrightarrow> a \<in> set (ass i) \<Longrightarrow> a < next_free m"
proof -
  assume "held m x ass t" "i < m_size t" "a \<in> set (ass i)"
  then have "owned (m_size t) ass \<subseteq> {..<next_free m}" "a \<in> owned (m_size t) ass"
    by (auto simp: held_def owned_iff)
  then show ?thesis by blast
qed

lemma owned_update:
  "i < n \<Longrightarrow> owned n (ass(i := as')) \<subseteq> owned n ass \<union> set as'"
  by (auto simp: owned_iff split: if_splits)

lemma owned_update_sub:
  "i < n \<Longrightarrow> set as' \<subseteq> set (ass i) \<Longrightarrow> owned n (ass(i := as')) \<subseteq> owned n ass"
  by (fastforce simp: owned_iff split: if_splits)

lemma load_table_set_bucket:
  "load (t_table (tables m x)) i = Some old \<Longrightarrow>
     load (t_table (tables (set_bucket x i p m) x)) j =
       (if j = i then Some p else load (t_table (tables m x)) j)"
  by (simp add: set_bucket_def load_store)

subsection \<open>Insert and remove in memory\<close>

text \<open>The two loops against \<open>insert_chain\<close> and \<open>unlink\<close>; then the calls: they do to the table of their object what the first view says, allocate or free within it, and leave every other cell and object alone.\<close>

lemma heap_insert_stop_path:
  assumes "path c (Some a0) as" "distinct as" "f \<notin> set as"
  shows "\<exists>s e. heap_insert_stop c key a0 = Some s \<and> c s = Some e \<and> s \<in> set as \<and>
     (e_key e = key \<longrightarrow>
        path (c(s := Some (e\<lparr>e_value := val\<rparr>))) (Some a0) as \<and>
        chain_abs (c(s := Some (e\<lparr>e_value := val\<rparr>))) as = insert_chain key val (chain_abs c as)) \<and>
     (e_key e \<noteq> key \<longrightarrow>
        path ((c(f := Some \<lparr>e_key = key, e_value = val, e_next = None\<rparr>))(s := Some (e\<lparr>e_next := Some f\<rparr>)))
          (Some a0) (as @ [f]) \<and>
        chain_abs ((c(f := Some \<lparr>e_key = key, e_value = val, e_next = None\<rparr>))(s := Some (e\<lparr>e_next := Some f\<rparr>)))
          (as @ [f]) = insert_chain key val (chain_abs c as))"
  using assms
proof (induction as arbitrary: a0)
  case Nil
  then show ?case by simp
next
  case (Cons a as)
  then obtain e0 where e0: "a0 = a" "c a = Some e0" "path c (e_next e0) as"
    by (auto split: option.splits)
  note IH = Cons.IH and prems = Cons.prems
  from prems have d: "distinct as" and fn: "f \<notin> set as" and an: "a \<notin> set as" and fa: "f \<noteq> a"
    by simp_all
  let ?new = "\<lparr>e_key = key, e_value = val, e_next = None\<rparr>"
  have fin: ?case
    if "heap_insert_stop c key a0 = Some s" "c s = Some e" "s \<in> set (a # as)"
      "e_key e = key \<Longrightarrow> path (c(s := Some (e\<lparr>e_value := val\<rparr>))) (Some a0) (a # as)"
      "e_key e = key \<Longrightarrow> chain_abs (c(s := Some (e\<lparr>e_value := val\<rparr>))) (a # as) =
          insert_chain key val (chain_abs c (a # as))"
      "e_key e \<noteq> key \<Longrightarrow> path ((c(f := Some ?new))(s := Some (e\<lparr>e_next := Some f\<rparr>))) (Some a0) ((a # as) @ [f])"
      "e_key e \<noteq> key \<Longrightarrow> chain_abs ((c(f := Some ?new))(s := Some (e\<lparr>e_next := Some f\<rparr>))) ((a # as) @ [f]) =
          insert_chain key val (chain_abs c (a # as))"
    for s e
    using that by blast
  show ?case
  proof (cases as)
    case Nil
    with e0 have n: "e_next e0 = None" by simp
    then have st: "heap_insert_stop c key a0 = Some a" using e0 by (subst heap_insert_stop.simps) simp
    show ?thesis
    proof (rule fin [OF st e0(2)])
      show "a \<in> set (a # as)" by simp
      show "path (c(a := Some (e0\<lparr>e_value := val\<rparr>))) (Some a0) (a # as)"
        using e0 n Nil by simp
      show "chain_abs (c(a := Some (e0\<lparr>e_value := val\<rparr>))) (a # as) =
          insert_chain key val (chain_abs c (a # as))" if "e_key e0 = key"
        using e0 n Nil that by simp
      show "path ((c(f := Some ?new))(a := Some (e0\<lparr>e_next := Some f\<rparr>))) (Some a0) ((a # as) @ [f])"
        using e0 n Nil fa by simp
      show "chain_abs ((c(f := Some ?new))(a := Some (e0\<lparr>e_next := Some f\<rparr>))) ((a # as) @ [f]) =
          insert_chain key val (chain_abs c (a # as))" if "e_key e0 \<noteq> key"
        using e0 n Nil fa that by simp
    qed
  next
    case (Cons b bs)
    with e0 have n: "e_next e0 = Some b" by simp
    show ?thesis
    proof (cases "e_key e0 = key")
      case True
      then have st: "heap_insert_stop c key a0 = Some a" using e0 n by (subst heap_insert_stop.simps) simp
      let ?c = "c(a := Some (e0\<lparr>e_value := val\<rparr>))"
      have fr: "\<forall>x\<in>set as. ?c x = c x" using an by auto
      have "path ?c (e_next e0) as" using e0(3) path_frame [of as ?c c "e_next e0"] fr by blast
      then have 1: "path ?c (Some a0) (a # as)" using e0 by simp
      have "chain_abs ?c as = chain_abs c as" using fr by (rule chain_abs_frame)
      then have 2: "chain_abs ?c (a # as) = insert_chain key val (chain_abs c (a # as))"
        using e0 True by simp
      show ?thesis
        by (rule fin [OF st e0(2)]) (insert 1 2 True, simp_all)
    next
      case False
      then have st: "heap_insert_stop c key a0 = heap_insert_stop c key b"
        using e0 n by (subst heap_insert_stop.simps) simp
      from e0(3) n have pb: "path c (Some b) as" by simp
      from IH [OF pb d fn] obtain s e where
        *: "heap_insert_stop c key b = Some s" "c s = Some e" "s \<in> set as"
           "e_key e = key \<longrightarrow>
              path (c(s := Some (e\<lparr>e_value := val\<rparr>))) (Some b) as \<and>
              chain_abs (c(s := Some (e\<lparr>e_value := val\<rparr>))) as = insert_chain key val (chain_abs c as)"
           "e_key e \<noteq> key \<longrightarrow>
              path ((c(f := Some ?new))(s := Some (e\<lparr>e_next := Some f\<rparr>))) (Some b) (as @ [f]) \<and>
              chain_abs ((c(f := Some ?new))(s := Some (e\<lparr>e_next := Some f\<rparr>))) (as @ [f]) =
                insert_chain key val (chain_abs c as)"
        by blast
      from *(3) an have sa: "s \<noteq> a" by auto
      have ne: "chain_abs c as \<noteq> nullptr" using pb Cons e0 by (auto split: option.splits)
      have ic: "insert_chain key val (chain_abs c (a # as)) =
          Element (e_key e0) (e_value e0) (insert_chain key val (chain_abs c as))"
        using e0 False ne by simp
      from st * have st': "heap_insert_stop c key a0 = Some s" by simp
      show ?thesis
      proof (rule fin [OF st' *(2)])
        show "s \<in> set (a # as)" using *(3) by simp
        show "path (c(s := Some (e\<lparr>e_value := val\<rparr>))) (Some a0) (a # as)" if "e_key e = key"
          using *(4) that e0 n sa fa by simp
        show "chain_abs (c(s := Some (e\<lparr>e_value := val\<rparr>))) (a # as) =
            insert_chain key val (chain_abs c (a # as))" if "e_key e = key"
          unfolding ic using *(4) that e0 sa fa by simp
        show "path ((c(f := Some ?new))(s := Some (e\<lparr>e_next := Some f\<rparr>))) (Some a0) ((a # as) @ [f])"
          if "e_key e \<noteq> key"
          using *(5) that e0 n sa fa by simp
        show "chain_abs ((c(f := Some ?new))(s := Some (e\<lparr>e_next := Some f\<rparr>))) ((a # as) @ [f]) =
            insert_chain key val (chain_abs c (a # as))" if "e_key e \<noteq> key"
          unfolding ic using *(5) that e0 sa fa by simp
      qed
    qed
  qed
qed

lemma heap_insert_held:
  assumes ok: "heap_ok m" and h: "held m x ass t" and s: "0 < m_size t"
  shows "\<exists>m' ass' t'. heap_insert F k v x m = Return () m' \<and> HashMap_insert F k v t = Return () t' \<and>
           held m' x ass' t' \<and> heap_ok m' \<and> next_free m \<le> next_free m' \<and> m_size t' = m_size t \<and>
           owned (m_size t) ass' \<subseteq> owned (m_size t) ass \<union> {next_free m..<next_free m'} \<and>
           (\<forall>a. a \<notin> owned (m_size t) ass \<longrightarrow> a < next_free m \<longrightarrow> cells m' a = cells m a) \<and>
           (\<forall>y. y \<noteq> x \<longrightarrow> tables m' y = tables m y)"
proof -
  let ?i = "F k mod m_size t"
  let ?c = "cells m"
  let ?f = "next_free m"
  let ?n = "m_size t"
  let ?new = "\<lparr>e_key = k, e_value = v, e_next = None\<rparr>"
  let ?t' = "t\<lparr>m_table := store (m_table t) ?i (insert_chain k v (chain_at t ?i))\<rparr>"
  from h have r: "rep ?c (tables m x) ass t" by (simp add: held_def)
  then have v: "valid t" by (simp add: rep_iff)
  have i: "?i < ?n" using s by simp
  from r have ri: "initialised (t_table (tables m x)) ?n" by (simp add: rep_iff)
  from rep_heap_bucket [OF r s, of F k] obtain p where
    b: "heap_bucket F m x k = Some (?i, p)" and lp: "load (t_table (tables m x)) ?i = Some p"
    and pa: "path ?c p (ass ?i)" and ab: "chain_at t ?i = chain_abs ?c (ass ?i)" by blast
  have vi: "HashMap_insert F k v t = Return () ?t'"
    using valid_bucket_chain [OF v s, of F k] by (simp add: HashMap_insert_def)
  have fresh: "a < ?f" if "a \<in> set (ass j)" "j < ?n" for a j
    using held_owned_fresh [OF h that(2) that(1)] .
  have fi: "?f \<notin> set (ass j)" if "j < ?n" for j using fresh [OF _ that, of ?f] by auto
  have cf: "?c ?f = None" using ok by (simp add: heap_ok_def)
  have di: "distinct (ass ?i)" using r i by (rule rep_distinct)
  have dj: "set (ass ?i) \<inter> set (ass j) = {}" if "j < ?n" "j \<noteq> ?i" for j
    using rep_disjoint [OF r i that(1)] that(2) by auto
  have fin: ?thesis
    if "heap_insert F k v x m = Return () m'" "held m' x ass' ?t'" "heap_ok m'" "?f \<le> next_free m'"
      "owned ?n ass' \<subseteq> owned ?n ass \<union> {?f..<next_free m'}"
      "\<And>a. a \<notin> owned ?n ass \<Longrightarrow> a < ?f \<Longrightarrow> cells m' a = cells m a"
      "\<And>y. y \<noteq> x \<Longrightarrow> tables m' y = tables m y" for m' ass'
    using that vi by (intro exI [of _ m'] exI [of _ ass'] exI [of _ ?t']) simp
  show ?thesis
  proof (cases p)
    case None
    with pa have e: "ass ?i = []" by (cases "ass ?i") auto
    define m' where "m' = set_bucket x ?i (Some ?f) (snd (new_Element k v m))"
    have c': "cells m' = ?c(?f := Some ?new)" and nf: "next_free m' = Suc ?f"
      and tb: "tables m' = (tables m)(x := (tables m x)\<lparr>t_table := store (t_table (tables m x)) ?i (Some ?f)\<rparr>)"
      by (simp_all add: m'_def set_bucket_def new_Element_def)
    have hi: "heap_insert F k v x m = Return () m'"
      using b None by (simp add: heap_insert_def m'_def new_Element_def)
    have "rep (cells m') (tables m' x) (ass(?i := [?f])) ?t'"
    proof (rule rep_update [OF r i])
      show "cells m' a = ?c a" if "j < ?n" "a \<in> set (ass j)" for j a
        using fresh [OF that(2,1)] by (simp add: c')
      show "t_size (tables m' x) = t_size (tables m x)" "t_mutexes (tables m' x) = t_mutexes (tables m x)"
        by (simp_all add: tb)
      show "load (t_table (tables m' x)) j = load (t_table (tables m x)) j" if "j \<noteq> ?i" for j
        using that by (simp add: tb load_store [OF lp])
      show "load (t_table (tables m' x)) ?i = Some (Some ?f)" by (simp add: tb load_store [OF lp])
      show "initialised (t_table (tables m' x)) ?n" using ri i by (simp add: tb initialised_store)
      show "path (cells m') (Some ?f) [?f]" by (simp add: c')
      show "chain_abs (cells m') [?f] = insert_chain k v (chain_at t ?i)" by (simp add: c' ab e)
      show "distinct [?f]" by simp
      show "set [?f] \<inter> set (ass j) = {}" if "j < ?n" for j using fi [OF that] by simp
    qed
    moreover have "owned ?n (ass(?i := [?f])) \<subseteq> owned ?n ass \<union> {?f..<next_free m'}"
      using owned_update [OF i, of ass "[?f]"] by (auto simp: nf)
    moreover from h have "owned ?n ass \<subseteq> {..<?f}" by (simp add: held_def)
    ultimately have hm: "held m' x (ass(?i := [?f])) ?t'"
      "owned ?n (ass(?i := [?f])) \<subseteq> owned ?n ass \<union> {?f..<next_free m'}"
      by (auto simp: held_def nf)
    show ?thesis
    proof (rule fin [OF hi hm(1) _ _ hm(2)])
      show "heap_ok m'" using ok by (simp add: heap_ok_def c' nf)
      show "?f \<le> next_free m'" by (simp add: nf)
      show "cells m' a = cells m a" if "a < ?f" for a using that by (simp add: c')
      show "tables m' y = tables m y" if "y \<noteq> x" for y using that by (simp add: tb)
    qed
  next
    case (Some a0)
    from heap_insert_stop_path [OF pa [unfolded Some] di fi [OF i], of k v] obtain st e where
      st: "heap_insert_stop ?c k a0 = Some st" "?c st = Some e" "st \<in> set (ass ?i)"
      and eq: "e_key e = k \<longrightarrow>
        path (?c(st := Some (e\<lparr>e_value := v\<rparr>))) (Some a0) (ass ?i) \<and>
        chain_abs (?c(st := Some (e\<lparr>e_value := v\<rparr>))) (ass ?i) = insert_chain k v (chain_abs ?c (ass ?i))"
      and ne: "e_key e \<noteq> k \<longrightarrow>
        path ((?c(?f := Some ?new))(st := Some (e\<lparr>e_next := Some ?f\<rparr>))) (Some a0) (ass ?i @ [?f]) \<and>
        chain_abs ((?c(?f := Some ?new))(st := Some (e\<lparr>e_next := Some ?f\<rparr>))) (ass ?i @ [?f]) =
          insert_chain k v (chain_abs ?c (ass ?i))"
      by blast
    have sto: "st \<notin> set (ass j)" if "j < ?n" "j \<noteq> ?i" for j using dj [OF that] st(3) by auto
    have stf: "st < ?f" using fresh [OF st(3) i] .
    have sown: "st \<in> owned ?n ass" using st(3) i by (auto simp: owned_iff)
    show ?thesis
    proof (cases "e_key e = k")
      case True
      define m' where "m' = m\<lparr>cells := ?c(st := Some (e\<lparr>e_value := v\<rparr>))\<rparr>"
      have hi: "heap_insert F k v x m = Return () m'"
        using b Some st True by (simp add: heap_insert_def m'_def)
      have "rep (cells m') (tables m' x) (ass(?i := ass ?i)) ?t'"
      proof (rule rep_update [OF r i])
        show "cells m' a = ?c a" if "j < ?n" "j \<noteq> ?i" "a \<in> set (ass j)" for j a
          using sto [OF that(1,2)] that(3) by (auto simp: m'_def)
        show "t_size (tables m' x) = t_size (tables m x)" "t_mutexes (tables m' x) = t_mutexes (tables m x)"
          by (simp_all add: m'_def)
        show "load (t_table (tables m' x)) j = load (t_table (tables m x)) j" for j by (simp add: m'_def)
        show "load (t_table (tables m' x)) ?i = Some (Some a0)" using lp Some by (simp add: m'_def)
        show "initialised (t_table (tables m' x)) ?n" using ri by (simp add: m'_def)
        show "path (cells m') (Some a0) (ass ?i)" using eq True by (simp add: m'_def)
        show "chain_abs (cells m') (ass ?i) = insert_chain k v (chain_at t ?i)"
          using eq True by (simp add: m'_def ab)
        show "distinct (ass ?i)" by (rule di)
        show "set (ass ?i) \<inter> set (ass j) = {}" if "j < ?n" "j \<noteq> ?i" for j by (rule dj [OF that])
      qed
      then have "rep (cells m') (tables m' x) ass ?t'" by simp
      with h have hm: "held m' x ass ?t'" by (simp add: held_def m'_def)
      show ?thesis
      proof (rule fin [OF hi hm])
        show "heap_ok m'" using ok stf by (auto simp: heap_ok_def m'_def)
        show "?f \<le> next_free m'" by (simp add: m'_def)
        show "owned ?n ass \<subseteq> owned ?n ass \<union> {?f..<next_free m'}" by simp
        show "cells m' a = cells m a" if "a \<notin> owned ?n ass" for a
          using that sown by (auto simp: m'_def)
        show "tables m' y = tables m y" for y by (simp add: m'_def)
      qed
    next
      case False
      define m' where "m' = (snd (new_Element k v m))\<lparr>cells := (?c(?f := Some ?new))(st := Some (e\<lparr>e_next := Some ?f\<rparr>))\<rparr>"
      have nf: "next_free m' = Suc ?f" and tb: "tables m' = tables m"
        and c': "cells m' = (?c(?f := Some ?new))(st := Some (e\<lparr>e_next := Some ?f\<rparr>))"
        by (simp_all add: m'_def new_Element_def)
      have hi: "heap_insert F k v x m = Return () m'"
        using b Some st False by (simp add: heap_insert_def m'_def new_Element_def)
      have "rep (cells m') (tables m' x) (ass(?i := ass ?i @ [?f])) ?t'"
      proof (rule rep_update [OF r i])
        show "cells m' a = ?c a" if "j < ?n" "j \<noteq> ?i" "a \<in> set (ass j)" for j a
          using sto [OF that(1,2)] that(3) fi [OF that(1)] by (auto simp: c')
        show "t_size (tables m' x) = t_size (tables m x)" "t_mutexes (tables m' x) = t_mutexes (tables m x)"
          by (simp_all add: tb)
        show "load (t_table (tables m' x)) j = load (t_table (tables m x)) j" for j by (simp add: tb)
        show "load (t_table (tables m' x)) ?i = Some (Some a0)" using lp Some by (simp add: tb)
        show "initialised (t_table (tables m' x)) ?n" using ri by (simp add: tb)
        show "path (cells m') (Some a0) (ass ?i @ [?f])" using ne False by (simp add: c')
        show "chain_abs (cells m') (ass ?i @ [?f]) = insert_chain k v (chain_at t ?i)"
          using ne False by (simp add: c' ab)
        show "distinct (ass ?i @ [?f])" using di fi [OF i] by simp
        show "set (ass ?i @ [?f]) \<inter> set (ass j) = {}" if "j < ?n" "j \<noteq> ?i" for j
          using dj [OF that] fi [OF that(1)] by auto
      qed
      moreover have ow: "owned ?n (ass(?i := ass ?i @ [?f])) \<subseteq> owned ?n ass \<union> {?f..<next_free m'}"
        using owned_update [OF i, of ass "ass ?i @ [?f]"] i by (auto simp: nf owned_iff)
      moreover from h have "owned ?n ass \<subseteq> {..<?f}" by (simp add: held_def)
      ultimately have hm: "held m' x (ass(?i := ass ?i @ [?f])) ?t'"
        by (auto simp: held_def nf)
      show ?thesis
      proof (rule fin [OF hi hm _ _ ow])
        show "heap_ok m'" using ok stf by (auto simp: heap_ok_def c' nf)
        show "?f \<le> next_free m'" by (simp add: nf)
        show "cells m' a = cells m a" if "a \<notin> owned ?n ass" "a < ?f" for a
          using that sown by (auto simp: c')
        show "tables m' y = tables m y" for y by (simp add: tb)
      qed
    qed
  qed
qed

lemma chain_abs_same_pairs:
  "\<forall>x\<in>set as. map_option (\<lambda>e. (e_key e, e_value e)) (c' x) = map_option (\<lambda>e. (e_key e, e_value e)) (c x)
     \<Longrightarrow> chain_abs c' as = chain_abs c as"
proof (induction as)
  case Nil
  then show ?case by simp
next
  case (Cons a as)
  then have "map_option (\<lambda>e. (e_key e, e_value e)) (c' a) = map_option (\<lambda>e. (e_key e, e_value e)) (c a)"
    and "chain_abs c' as = chain_abs c as" by simp_all
  then show ?case by (cases "c a"; cases "c' a") auto
qed

lemma heap_remove_scan_path:
  "path c p as \<Longrightarrow>
     (scan key (chain_abs c as) = nullptr \<longrightarrow> (\<exists>pr. heap_remove_scan c key p prev = Some (None, pr))) \<and>
     (scan key (chain_abs c as) \<noteq> nullptr \<longrightarrow>
        (\<exists>xs a ys e. as = xs @ a # ys \<and> c a = Some e \<and> path c (e_next e) ys \<and>
           chain_abs c (xs @ ys) = unlink key (chain_abs c as) \<and>
           heap_remove_scan c key p prev = Some (Some a, if xs = [] then prev else Some (last xs)) \<and>
           (xs \<noteq> [] \<longrightarrow> (\<exists>ep. c (last xs) = Some ep \<and> e_next ep = Some a))))"
proof (induction as arbitrary: p prev)
  case Nil
  then show ?case by (subst heap_remove_scan.simps) simp
next
  case (Cons a' as)
  then obtain e' where e': "p = Some a'" "c a' = Some e'" "path c (e_next e') as"
    by (auto split: option.splits)
  show ?case
  proof (cases "e_key e' = key")
    case True
    have sc: "scan key (chain_abs c (a' # as)) \<noteq> nullptr" using e' True by simp
    have hs: "heap_remove_scan c key p prev = Some (Some a', prev)"
      using e' True by (subst heap_remove_scan.simps) simp
    have "a' # as = [] @ a' # as \<and> c a' = Some e' \<and> path c (e_next e') as \<and>
           chain_abs c ([] @ as) = unlink key (chain_abs c (a' # as)) \<and>
           heap_remove_scan c key p prev = Some (Some a', if [] = [] then prev else Some (last [])) \<and>
           (([]::addr list) \<noteq> [] \<longrightarrow> (\<exists>ep. c (last []) = Some ep \<and> e_next ep = Some a'))"
      using e' True hs by simp
    then have "\<exists>xs a ys e. a' # as = xs @ a # ys \<and> c a = Some e \<and> path c (e_next e) ys \<and>
           chain_abs c (xs @ ys) = unlink key (chain_abs c (a' # as)) \<and>
           heap_remove_scan c key p prev = Some (Some a, if xs = [] then prev else Some (last xs)) \<and>
           (xs \<noteq> [] \<longrightarrow> (\<exists>ep. c (last xs) = Some ep \<and> e_next ep = Some a))"
      by blast
    with sc show ?thesis by blast
  next
    case False
    have hs: "heap_remove_scan c key p prev = heap_remove_scan c key (e_next e') (Some a')"
      using e' False by (subst heap_remove_scan.simps) simp
    have sc: "scan key (chain_abs c (a' # as)) = scan key (chain_abs c as)"
      using e' False by simp
    note IH = Cons.IH [OF e'(3), of "Some a'"]
    show ?thesis
    proof (cases "scan key (chain_abs c as) = nullptr")
      case True
      with IH hs sc show ?thesis by simp
    next
      case nf: False
      with IH obtain xs a ys e where
        *: "as = xs @ a # ys" "c a = Some e" "path c (e_next e) ys"
           "chain_abs c (xs @ ys) = unlink key (chain_abs c as)"
           "heap_remove_scan c key (e_next e') (Some a') = Some (Some a, if xs = [] then Some a' else Some (last xs))"
           "xs \<noteq> [] \<longrightarrow> (\<exists>ep. c (last xs) = Some ep \<and> e_next ep = Some a)"
        by blast
      have l: "\<exists>ep. c (last (a' # xs)) = Some ep \<and> e_next ep = Some a"
      proof (cases "xs = []")
        case True
        with * e' show ?thesis by simp
      next
        case False
        with *(6) show ?thesis by simp
      qed
      have "a' # as = (a' # xs) @ a # ys \<and> c a = Some e \<and> path c (e_next e) ys \<and>
           chain_abs c ((a' # xs) @ ys) = unlink key (chain_abs c (a' # as)) \<and>
           heap_remove_scan c key p prev =
             Some (Some a, if a' # xs = [] then prev else Some (last (a' # xs))) \<and>
           (a' # xs \<noteq> [] \<longrightarrow> (\<exists>ep. c (last (a' # xs)) = Some ep \<and> e_next ep = Some a))"
        using * e' False hs l by simp
      then have "\<exists>xs a ys e. a' # as = xs @ a # ys \<and> c a = Some e \<and> path c (e_next e) ys \<and>
           chain_abs c (xs @ ys) = unlink key (chain_abs c (a' # as)) \<and>
           heap_remove_scan c key p prev = Some (Some a, if xs = [] then prev else Some (last xs)) \<and>
           (xs \<noteq> [] \<longrightarrow> (\<exists>ep. c (last xs) = Some ep \<and> e_next ep = Some a))"
        by blast
      with nf sc show ?thesis by simp
    qed
  qed
qed

lemma path_redirect:
  assumes "path c p (xs @ a # ys)" "xs \<noteq> []" "distinct (xs @ a # ys)" "c a = Some e"
    "c (last xs) = Some ep"
  shows "path ((c(last xs := Some (ep\<lparr>e_next := e_next e\<rparr>)))(a := None)) p (xs @ ys)"
  using assms
proof (induction xs arbitrary: p)
  case Nil
  then show ?case by simp
next
  case (Cons x xs)
  then obtain ex where ex: "p = Some x" "c x = Some ex" "path c (e_next ex) (xs @ a # ys)"
    by (auto split: option.splits)
  from Cons.prems(3) have d: "x \<notin> set xs" "x \<noteq> a" "x \<notin> set ys" "distinct (xs @ a # ys)" by auto
  show ?case
  proof (cases "xs = []")
    case True
    with ex Cons.prems have n: "e_next ex = Some a" "ep = ex" "path c (e_next e) ys" by auto
    let ?c = "(c(x := Some (ex\<lparr>e_next := e_next e\<rparr>)))(a := None)"
    from Cons.prems(3) True have fr: "\<forall>z\<in>set ys. ?c z = c z" by auto
    have py: "path ?c (e_next e) ys" using n(3) by (simp only: path_frame [OF fr])
    have cx: "?c x = Some (ex\<lparr>e_next := e_next e\<rparr>)" using d(2) by simp
    have en: "e_next (ex\<lparr>e_next := e_next e\<rparr>) = e_next e" by simp
    have pp: "path ?c (Some x) (x # ys)"
      by (simp only: path.simps cx option.case en py simp_thms)
    show ?thesis using pp unfolding True n(2) ex(1)
      by (simp only: last.simps append.simps simp_thms if_True)
  next
    case False
    then have l: "last (x # xs) = last xs" by simp
    have c5: "c (last xs) = Some ep" using Cons.prems(5) False by simp
    let ?d = "(c(last xs := Some (ep\<lparr>e_next := e_next e\<rparr>)))(a := None)"
    have ih: "path ?d (e_next ex) (xs @ ys)"
      by (rule Cons.IH [OF ex(3) False d(4) Cons.prems(4) c5])
    have "last xs \<noteq> x" using False d(1) last_in_set by metis
    then have cx: "?d x = Some ex" using d(2) ex(2) by simp
    have pp: "path ?d (Some x) (x # (xs @ ys))"
      by (simp only: path.simps cx option.case ih simp_thms)
    show ?thesis using pp unfolding ex(1) l by (simp only: append.simps)
  qed
qed

lemma heap_remove_held:
  assumes ok: "heap_ok m" and h: "held m x ass t" and s: "0 < m_size t"
  shows "(HashMap_remove F k t = Throw out_of_range t \<and> heap_remove F k x m = Throw out_of_range m) \<or>
         (\<exists>m' ass' t'. heap_remove F k x m = Return () m' \<and> HashMap_remove F k t = Return () t' \<and>
           held m' x ass' t' \<and> heap_ok m' \<and> next_free m' = next_free m \<and> m_size t' = m_size t \<and>
           owned (m_size t) ass' \<subseteq> owned (m_size t) ass \<and>
           (\<forall>a. a \<notin> owned (m_size t) ass \<longrightarrow> cells m' a = cells m a) \<and>
           (\<forall>y. y \<noteq> x \<longrightarrow> tables m' y = tables m y))"
proof -
  let ?i = "F k mod m_size t"
  let ?c = "cells m"
  let ?n = "m_size t"
  let ?t' = "t\<lparr>m_table := store (m_table t) ?i (unlink k (chain_at t ?i))\<rparr>"
  from h have r: "rep ?c (tables m x) ass t" by (simp add: held_def)
  then have v: "valid t" by (simp add: rep_iff)
  have i: "?i < ?n" using s by simp
  from r have ri: "initialised (t_table (tables m x)) ?n" by (simp add: rep_iff)
  from rep_heap_bucket [OF r s, of F k] obtain p where
    b: "heap_bucket F m x k = Some (?i, p)" and lp: "load (t_table (tables m x)) ?i = Some p"
    and pa: "path ?c p (ass ?i)" and ab: "chain_at t ?i = chain_abs ?c (ass ?i)" by blast
  have vb: "bucket F t k = Some (?i, chain_at t ?i)" using v s by (rule valid_bucket_chain)
  have di: "distinct (ass ?i)" using r i by (rule rep_distinct)
  have dj: "set (ass ?i) \<inter> set (ass j) = {}" if "j < ?n" "j \<noteq> ?i" for j
    using rep_disjoint [OF r i that(1)] that(2) by auto
  note sp = heap_remove_scan_path [OF pa, of k None]
  show ?thesis
  proof (cases "scan k (chain_at t ?i) = nullptr")
    case True
    with sp ab obtain pr where "heap_remove_scan ?c k p None = Some (None, pr)" by auto
    with b have "heap_remove F k x m = Throw out_of_range m" by (simp add: heap_remove_def)
    moreover from True vb have "HashMap_remove F k t = Throw out_of_range t"
      by (simp add: HashMap_remove_def)
    ultimately show ?thesis by simp
  next
    case False
    with vb have vr: "HashMap_remove F k t = Return () ?t'" by (simp add: HashMap_remove_def)
    from False have nn: "scan k (chain_abs ?c (ass ?i)) \<noteq> nullptr" unfolding ab .
    with sp obtain xs a ys e where
      **: "ass ?i = xs @ a # ys" "?c a = Some e" "path ?c (e_next e) ys"
         "chain_abs ?c (xs @ ys) = unlink k (chain_abs ?c (ass ?i))"
         "heap_remove_scan ?c k p None = Some (Some a, if xs = [] then None else Some (last xs))"
         "xs \<noteq> [] \<longrightarrow> (\<exists>ep. ?c (last xs) = Some ep \<and> e_next ep = Some a)"
      by blast
    note * = **(1-3) **(4) [folded ab] **(5,6)
    have sub: "set (xs @ ys) \<subseteq> set (ass ?i)" using *(1) by auto
    have dxy: "distinct (xs @ ys)" "a \<notin> set (xs @ ys)" using di *(1) by auto
    have ain: "a \<in> owned ?n ass" using *(1) i by (auto simp: owned_iff)
    have fin: ?thesis
      if "heap_remove F k x m = Return () m'" "next_free m' = next_free m"
        "\<And>y. y \<noteq> x \<Longrightarrow> tables m' y = tables m y"
        "\<And>z. z \<notin> set (ass ?i) \<Longrightarrow> cells m' z = cells m z"
        "t_size (tables m' x) = t_size (tables m x)" "t_mutexes (tables m' x) = t_mutexes (tables m x)"
        "\<And>j. j \<noteq> ?i \<Longrightarrow> load (t_table (tables m' x)) j = load (t_table (tables m x)) j"
        "load (t_table (tables m' x)) ?i = Some p'" "path (cells m') p' (xs @ ys)"
        "chain_abs (cells m') (xs @ ys) = chain_abs ?c (xs @ ys)"
        "cells m' a = None" "initialised (t_table (tables m' x)) ?n" for m' p'
    proof -
      note cz = that(4)
      have "rep (cells m') (tables m' x) (ass(?i := xs @ ys)) ?t'"
      proof (rule rep_update [OF r i])
        show "cells m' z = ?c z" if "j < ?n" "j \<noteq> ?i" "z \<in> set (ass j)" for j z
          using dj [OF that(1,2)] that(3) cz by auto
        show "set (xs @ ys) \<inter> set (ass j) = {}" if "j < ?n" "j \<noteq> ?i" for j
          using dj [OF that] sub by auto
        show "chain_abs (cells m') (xs @ ys) = unlink k (chain_at t ?i)"
          using that(10) *(4) by simp
      qed (insert that dxy, simp_all)
      moreover have ow: "owned ?n (ass(?i := xs @ ys)) \<subseteq> owned ?n ass"
        using owned_update_sub [where i = "?i" and ass = ass, OF i sub] .
      moreover from h have "owned ?n ass \<subseteq> {..<next_free m}" by (simp add: held_def)
      ultimately have hm: "held m' x (ass(?i := xs @ ys)) ?t'" using that(2) by (auto simp: held_def)
      have hk: "heap_ok m'"
        unfolding heap_ok_def
      proof (intro allI impI)
        fix z assume z: "next_free m' \<le> z"
        show "cells m' z = None"
        proof (cases "z \<in> set (ass ?i)")
          case True
          with held_owned_fresh [OF h i True] z that(2) show ?thesis by simp
        next
          case False
          with that(4) [OF False] ok z that(2) show ?thesis by (simp add: heap_ok_def)
        qed
      qed
      have fr: "cells m' z = cells m z" if "z \<notin> owned ?n ass" for z
      proof -
        from that i have "z \<notin> set (ass ?i)" by (auto simp: owned_iff)
        then show ?thesis by (rule cz)
      qed
      show ?thesis
        apply (rule disjI2)
        apply (intro exI [of _ m'] exI [of _ "ass(?i := xs @ ys)"] exI [of _ ?t'])
        using that(1,2,3) vr hm hk ow fr by simp
    qed
    show ?thesis
    proof (cases "xs = []")
      case True
      define m' where "m' = delete_Element a (set_bucket x ?i (e_next e) m)"
      have c': "cells m' = ?c(a := None)" by (simp add: m'_def delete_Element_def set_bucket_def)
      have tb: "tables m' = (tables m)(x := (tables m x)\<lparr>t_table := store (t_table (tables m x)) ?i (e_next e)\<rparr>)"
        by (simp add: m'_def delete_Element_def set_bucket_def)
      have hr: "heap_remove F k x m = Return () m'"
        using b * True by (simp add: heap_remove_def m'_def)
      have fy: "\<forall>z\<in>set ys. (?c(a := None)) z = ?c z" using dxy True by auto
      show ?thesis
      proof (rule fin [OF hr])
        have "path (?c(a := None)) (e_next e) ys" using *(3) by (simp only: path_frame [OF fy])
        then show "path (cells m') (e_next e) (xs @ ys)" using True by (simp add: c')
        have "chain_abs (?c(a := None)) ys = chain_abs ?c ys" by (rule chain_abs_frame [OF fy])
        then show "chain_abs (cells m') (xs @ ys) = chain_abs ?c (xs @ ys)"
          using True by (simp add: c')
        show "load (t_table (tables m' x)) ?i = Some (e_next e)" by (simp add: tb load_store [OF lp])
        show "load (t_table (tables m' x)) j = load (t_table (tables m x)) j" if "j \<noteq> ?i" for j
          using that by (simp add: tb load_store [OF lp])
        show "cells m' z = cells m z" if "z \<notin> set (ass ?i)" for z
          using that *(1) by (auto simp: c')
        show "initialised (t_table (tables m' x)) ?n" using ri i by (simp add: tb initialised_store)
      qed (simp_all add: m'_def delete_Element_def set_bucket_def)
    next
      case False
      with *(6) obtain ep where ep: "?c (last xs) = Some ep" "e_next ep = Some a" by blast
      define m' where "m' = delete_Element a (m\<lparr>cells := ?c(last xs := Some (ep\<lparr>e_next := e_next e\<rparr>))\<rparr>)"
      have c': "cells m' = (?c(last xs := Some (ep\<lparr>e_next := e_next e\<rparr>)))(a := None)"
        and tb: "tables m' = tables m" by (simp_all add: m'_def delete_Element_def)
      have hr: "heap_remove F k x m = Return () m'"
        using b * False ep by (simp add: heap_remove_def m'_def)
      have lx: "last xs \<in> set xs" using False by simp
      show ?thesis
      proof (rule fin [OF hr])
        show "path (cells m') p (xs @ ys)"
          unfolding c' using pa [unfolded *(1)] False di [unfolded *(1)] *(2) ep(1) by (rule path_redirect)
        show "chain_abs (cells m') (xs @ ys) = chain_abs ?c (xs @ ys)"
        proof (rule chain_abs_same_pairs, rule ballI)
          fix z assume "z \<in> set (xs @ ys)"
          with dxy have "z \<noteq> a" by auto
          then show "map_option (\<lambda>e. (e_key e, e_value e)) (cells m' z) =
              map_option (\<lambda>e. (e_key e, e_value e)) (?c z)"
            using ep by (simp add: c')
        qed
        show "load (t_table (tables m' x)) ?i = Some p" using lp by (simp add: tb)
        show "cells m' z = cells m z" if "z \<notin> set (ass ?i)" for z
          using that *(1) lx by (auto simp: c')
        show "initialised (t_table (tables m' x)) ?n" using ri by (simp add: tb)
      qed (simp_all add: m'_def delete_Element_def)
    qed
  qed
qed

subsection \<open>Two objects that share no element\<close>

text \<open>Runs on one object keep the other one as it is.\<close>

lemma held_frame:
  assumes h: "held m y ass t" and tb: "tables m' y = tables m y"
    and nf: "next_free m \<le> next_free m'"
    and fr: "\<forall>a\<in>owned (m_size t) ass. cells m' a = cells m a"
  shows "held m' y ass t"
proof -
  have eq: "path (cells m') p (ass i) = path (cells m) p (ass i) \<and>
      chain_abs (cells m') (ass i) = chain_abs (cells m) (ass i)" if "i < m_size t" for i p
  proof -
    have "\<forall>a\<in>set (ass i). cells m' a = cells m a" using fr that by (auto simp: owned_iff)
    then show ?thesis
      using path_frame [of "ass i" "cells m'" "cells m" p]
        chain_abs_frame [of "ass i" "cells m'" "cells m"] by blast
  qed
  from h have r: "rep (cells m) (tables m y) ass t" and o: "owned (m_size t) ass \<subseteq> {..<next_free m}"
    by (simp_all add: held_def)
  from r have "rep (cells m') (tables m' y) ass t"
    unfolding rep_iff tb using eq by simp
  moreover from o nf have "owned (m_size t) ass \<subseteq> {..<next_free m'}" by auto
  ultimately show ?thesis by (simp add: held_def)
qed

lemma separate_sym: "separate m x assx tx y assy ty \<Longrightarrow> separate m y assy ty x assx tx"
  by (auto simp: separate_def)

lemma heap_insert_separate:
  assumes s: "separate m x assx tx y assy ty" and n: "x \<noteq> y" and z: "0 < m_size tx"
  shows "\<exists>m' assx' tx'. heap_insert F k v x m = Return () m' \<and>
           HashMap_insert F k v tx = Return () tx' \<and> m_size tx' = m_size tx \<and>
           separate m' x assx' tx' y assy ty \<and> tables m' y = tables m y \<and>
           (\<forall>a\<in>owned (m_size ty) assy. cells m' a = cells m a)"
proof -
  from s have ok: "heap_ok m" and hx: "held m x assx tx" and hy: "held m y assy ty"
    and dj: "owned (m_size tx) assx \<inter> owned (m_size ty) assy = {}" by (simp_all add: separate_def)
  from hy have oy: "owned (m_size ty) assy \<subseteq> {..<next_free m}" by (simp add: held_def)
  from heap_insert_held [OF ok hx z, of F k v] obtain m' assx' tx' where
    *: "heap_insert F k v x m = Return () m'" "HashMap_insert F k v tx = Return () tx'"
       "held m' x assx' tx'" "heap_ok m'" "next_free m \<le> next_free m'" "m_size tx' = m_size tx"
       "owned (m_size tx) assx' \<subseteq> owned (m_size tx) assx \<union> {next_free m..<next_free m'}"
       "\<forall>a. a \<notin> owned (m_size tx) assx \<longrightarrow> a < next_free m \<longrightarrow> cells m' a = cells m a"
       "\<forall>y. y \<noteq> x \<longrightarrow> tables m' y = tables m y" by blast
  have ty: "tables m' y = tables m y" using *(9) n by simp
  have fr: "\<forall>a\<in>owned (m_size ty) assy. cells m' a = cells m a"
  proof
    fix a assume a: "a \<in> owned (m_size ty) assy"
    with dj have "a \<notin> owned (m_size tx) assx" by blast
    moreover from a oy have "a < next_free m" by blast
    ultimately show "cells m' a = cells m a" using *(8) by blast
  qed
  have hy': "held m' y assy ty" using hy ty *(5) fr by (rule held_frame)
  have "owned (m_size tx') assx' \<inter> owned (m_size ty) assy = {}"
  proof -
    have "owned (m_size ty) assy \<inter> {next_free m..<next_free m'} = {}" using oy by auto
    with *(7) dj show ?thesis unfolding *(6) by blast
  qed
  with *(3,4) hy' have "separate m' x assx' tx' y assy ty" by (simp add: separate_def)
  with *(1,2,6) ty fr show ?thesis by blast
qed

lemma heap_remove_separate:
  assumes s: "separate m x assx tx y assy ty" and n: "x \<noteq> y" and z: "0 < m_size tx"
  shows "(HashMap_remove F k tx = Throw out_of_range tx \<and> heap_remove F k x m = Throw out_of_range m) \<or>
         (\<exists>m' assx' tx'. heap_remove F k x m = Return () m' \<and>
           HashMap_remove F k tx = Return () tx' \<and> m_size tx' = m_size tx \<and>
           separate m' x assx' tx' y assy ty \<and> tables m' y = tables m y \<and>
           (\<forall>a\<in>owned (m_size ty) assy. cells m' a = cells m a))"
proof -
  from s have ok: "heap_ok m" and hx: "held m x assx tx" and hy: "held m y assy ty"
    and dj: "owned (m_size tx) assx \<inter> owned (m_size ty) assy = {}" by (simp_all add: separate_def)
  from heap_remove_held [OF ok hx z, of F k]
  consider "HashMap_remove F k tx = Throw out_of_range tx \<and> heap_remove F k x m = Throw out_of_range m"
    | m' assx' tx' where "heap_remove F k x m = Return () m'" "HashMap_remove F k tx = Return () tx'"
       "held m' x assx' tx'" "heap_ok m'" "next_free m' = next_free m" "m_size tx' = m_size tx"
       "owned (m_size tx) assx' \<subseteq> owned (m_size tx) assx"
       "\<forall>a. a \<notin> owned (m_size tx) assx \<longrightarrow> cells m' a = cells m a"
       "\<forall>y. y \<noteq> x \<longrightarrow> tables m' y = tables m y" by blast
  then show ?thesis
  proof cases
    case 1
    then show ?thesis by blast
  next
    case 2
    have ty: "tables m' y = tables m y" using 2(9) n by simp
    have fr: "\<forall>a\<in>owned (m_size ty) assy. cells m' a = cells m a"
    proof
      fix a assume a: "a \<in> owned (m_size ty) assy"
      with dj have "a \<notin> owned (m_size tx) assx" by blast
      then show "cells m' a = cells m a" using 2(8) by blast
    qed
    have nf: "next_free m \<le> next_free m'" using 2(5) by simp
    have hy': "held m' y assy ty" using hy ty nf fr by (rule held_frame)
    have "owned (m_size tx') assx' \<inter> owned (m_size ty) assy = {}"
      using 2(7) dj unfolding 2(6) by blast
    with 2(3,4) hy' have "separate m' x assx' tx' y assy ty" by (simp add: separate_def)
    with 2(1,2,6) ty fr show ?thesis by blast
  qed
qed

lemma held_size0_insert:
  "held m x ass t \<Longrightarrow> m_size t = 0 \<Longrightarrow>
     heap_insert F k v x m = Undefined \<and> HashMap_insert F k v t = Undefined"
  by (simp add: held_def rep_iff heap_insert_def heap_bucket_size0 HashMap_insert_def bucket_def hash_def)

lemma held_size0_remove:
  "held m x ass t \<Longrightarrow> m_size t = 0 \<Longrightarrow>
     heap_remove F k x m = Undefined \<and> HashMap_remove F k t = Undefined"
  by (simp add: held_def rep_iff heap_remove_def heap_bucket_size0 HashMap_remove_def bucket_def hash_def)

lemma heap_apply_op_separate:
  assumes s: "separate m x assx tx y assy ty" and n: "x \<noteq> y"
  shows "(heap_apply_op F ope x m = Undefined \<and> apply_op F ope tx = Undefined) \<or>
         (\<exists>m' assx' tx'.
            (heap_apply_op F ope x m = Return () m' \<and> apply_op F ope tx = Return () tx' \<or>
             heap_apply_op F ope x m = Throw out_of_range m' \<and> apply_op F ope tx = Throw out_of_range tx') \<and>
            m_size tx' = m_size tx \<and> separate m' x assx' tx' y assy ty \<and>
            tables m' y = tables m y \<and> (\<forall>a\<in>owned (m_size ty) assy. cells m' a = cells m a))"
proof (cases "m_size tx = 0")
  case True
  from s have "held m x assx tx" by (simp add: separate_def)
  from held_size0_insert [OF this True] held_size0_remove [OF this True]
  show ?thesis by (cases ope) simp_all
next
  case False
  then have z: "0 < m_size tx" by simp
  show ?thesis
  proof (cases ope)
    case (Insert k v)
    from heap_insert_separate [OF s n z, of F k v] show ?thesis unfolding Insert
      by (simp only: heap_apply_op.simps apply_op.simps) blast
  next
    case (Remove k)
    from heap_remove_separate [OF s n z, of F k] s show ?thesis unfolding Remove
      by (simp only: heap_apply_op.simps apply_op.simps) blast
  qed
qed

lemma heap_run_separate:
  assumes "separate m x assx tx y assy ty" "x \<noteq> y"
  shows "(heap_run F x ops m = None \<and> run F ops tx = None) \<or>
         (\<exists>m' assx' tx'. heap_run F x ops m = Some m' \<and> run F ops tx = Some tx' \<and>
            m_size tx' = m_size tx \<and> separate m' x assx' tx' y assy ty \<and>
            tables m' y = tables m y \<and> (\<forall>a\<in>owned (m_size ty) assy. cells m' a = cells m a))"
  using assms(1)
proof (induction ops arbitrary: m assx tx)
  case Nil
  then show ?case by auto
next
  case (Cons ope ops)
  from heap_apply_op_separate [OF Cons.prems assms(2), of F ope]
  consider "heap_apply_op F ope x m = Undefined" "apply_op F ope tx = Undefined"
    | m' assx' tx' where
      "heap_apply_op F ope x m = Return () m' \<and> apply_op F ope tx = Return () tx' \<or>
       heap_apply_op F ope x m = Throw out_of_range m' \<and> apply_op F ope tx = Throw out_of_range tx'"
      "m_size tx' = m_size tx" "separate m' x assx' tx' y assy ty"
      "tables m' y = tables m y" "\<forall>a\<in>owned (m_size ty) assy. cells m' a = cells m a"
    by blast
  then show ?case
  proof cases
    case 1
    then show ?thesis by simp
  next
    case 2
    from 2(1) have st: "heap_run F x (ope # ops) m = heap_run F x ops m'"
      "run F (ope # ops) tx = run F ops tx'" by auto
    from Cons.IH [OF 2(3)] show ?thesis unfolding st using 2(2,4,5) by auto
  qed
qed

lemma separate_independent:
  assumes "separate m x assx tx y assy ty" "x \<noteq> y" "heap_run F x ops m = Some m2"
  shows "observe (heap_lookup F k y m2) = observe (heap_lookup F k y m)"
proof -
  from heap_run_separate [OF assms(1,2), of F ops] assms(3) obtain assx' tx' where
    "separate m2 x assx' tx' y assy ty" by auto
  then have "rep (cells m2) (tables m2 y) assy ty" by (simp add: separate_def held_def)
  moreover from assms(1) have "rep (cells m) (tables m y) assy ty" by (simp add: separate_def held_def)
  ultimately show ?thesis by (simp add: heap_lookup_rep)
qed

lemma separate_run_returns:
  assumes "separate m x assx tx y assy ty" "x \<noteq> y" "0 < m_size tx"
  shows "\<exists>m2. heap_run F x ops m = Some m2"
proof -
  from assms(1) have "valid tx" by (simp add: separate_def held_def rep_iff)
  from run_valid [OF this assms(3), of F ops] heap_run_separate [OF assms(1,2), of F ops]
  show ?thesis by auto
qed

subsection \<open>Copying in memory\<close>

text \<open>The loops of the copy operations build, in fresh cells, the table that \<open>copy_buckets\<close> computes.\<close>

lemma heap_copy_chain_separate:
  assumes "separate m x assx tx y assy ty" "x \<noteq> y" "0 < m_size tx"
    "path (cells m) tmp as" "set as \<subseteq> owned (m_size ty) assy"
  shows "\<exists>m' assx' tx'. heap_copy_chain F x tmp m = Some m' \<and>
           copy_chain F (chain_abs (cells m) as) tx = Some tx' \<and> m_size tx' = m_size tx \<and>
           separate m' x assx' tx' y assy ty \<and> tables m' y = tables m y \<and>
           (\<forall>a\<in>owned (m_size ty) assy. cells m' a = cells m a)"
  using assms(1,3,4,5)
proof (induction as arbitrary: tmp m assx tx)
  case Nil
  then have "tmp = None" by simp
  then have "heap_copy_chain F x tmp m = Some m" by (subst heap_copy_chain.simps) simp
  with Nil.prems(1) show ?case by auto
next
  case (Cons a as)
  then obtain e where e: "tmp = Some a" "cells m a = Some e" "path (cells m) (e_next e) as"
    by (auto split: option.splits)
  from heap_insert_separate [OF Cons.prems(1) assms(2) Cons.prems(2), of F "e_key e" "e_value e"]
  obtain m1 assx1 tx1 where
    *: "heap_insert F (e_key e) (e_value e) x m = Return () m1"
       "HashMap_insert F (e_key e) (e_value e) tx = Return () tx1" "m_size tx1 = m_size tx"
       "separate m1 x assx1 tx1 y assy ty" "tables m1 y = tables m y"
       "\<forall>a\<in>owned (m_size ty) assy. cells m1 a = cells m a" by blast
  have fr: "\<forall>b\<in>set (a # as). cells m1 b = cells m b" using *(6) Cons.prems(4) by blast
  then have fr': "\<forall>b\<in>set as. cells m1 b = cells m b" by simp
  have a1: "cells m1 a = Some e" using fr e(2) by simp
  have p1: "path (cells m1) (e_next e) as"
    using e(3) by (simp only: path_frame [of as "cells m1" "cells m" "e_next e", OF fr'])
  have c1: "chain_abs (cells m1) as = chain_abs (cells m) as"
    by (rule chain_abs_frame [of as "cells m1" "cells m", OF fr'])
  have z1: "0 < m_size tx1" using *(3) Cons.prems(2) by simp
  have s1: "set as \<subseteq> owned (m_size ty) assy" using Cons.prems(4) by simp
  from Cons.IH [OF *(4) z1 p1 s1] obtain m' assx' tx' where
    **: "heap_copy_chain F x (e_next e) m1 = Some m'"
        "copy_chain F (chain_abs (cells m1) as) tx1 = Some tx'" "m_size tx' = m_size tx1"
        "separate m' x assx' tx' y assy ty" "tables m' y = tables m1 y"
        "\<forall>a\<in>owned (m_size ty) assy. cells m' a = cells m1 a" by blast
  have h: "heap_copy_chain F x tmp m = Some m'"
    using e(1,2) *(1) a1 **(1) by (subst heap_copy_chain.simps) simp
  have v: "copy_chain F (chain_abs (cells m) (a # as)) tx = Some tx'"
    using e(2) *(2) **(2) c1 by simp
  have "\<forall>a\<in>owned (m_size ty) assy. cells m' a = cells m a" using **(6) *(6) by simp
  with h v **(3,4,5) *(3,5) show ?case by auto
qed

lemma heap_copy_buckets_separate:
  assumes "separate m x assx tx y assy ty" "x \<noteq> y" "m_size tx = m_size ty"
  shows "\<exists>m' assx' tx'. heap_copy_buckets F x y i m = Some m' \<and>
           copy_buckets F ty i tx = Some tx' \<and> m_size tx' = m_size ty \<and>
           separate m' x assx' tx' y assy ty \<and> tables m' y = tables m y \<and>
           (\<forall>a\<in>owned (m_size ty) assy. cells m' a = cells m a)"
  using assms(1,3)
proof (induction "m_size ty - i" arbitrary: i m assx tx)
  case 0
  from 0(2) have r: "rep (cells m) (tables m y) assy ty" by (simp add: separate_def held_def)
  then have sz: "t_size (tables m y) = m_size ty" by (simp add: rep_iff)
  from 0(1) have ni: "\<not> i < m_size ty" by simp
  have "heap_copy_buckets F x y i m = Some m"
    using ni sz by (subst heap_copy_buckets.simps) simp
  moreover have "copy_buckets F ty i tx = Some tx"
    using ni by (subst copy_buckets.simps) simp
  ultimately show ?case using 0(2,3) by auto
next
  case (Suc d)
  then have i: "i < m_size ty" by simp
  from Suc.prems(1) have r: "rep (cells m) (tables m y) assy ty" by (simp add: separate_def held_def)
  then have sz: "t_size (tables m y) = m_size ty" and mu: "t_mutexes (tables m y) = m_mutexes ty"
    and v: "valid ty" by (simp_all add: rep_iff)
  from rep_bucket [OF r i] obtain p where p: "load (t_table (tables m y)) i = Some p"
    "path (cells m) p (assy i)" "chain_at ty i = chain_abs (cells m) (assy i)" by blast
  from v i obtain mx where "load (m_mutexes ty) i = Some mx"
    unfolding valid_def using initialised_load by blast
  then have lg: "lock_guard (m_mutexes ty) i" by (simp add: lock_guard_def)
  have vl: "load (m_table ty) i = Some (chain_at ty i)" using v i by (rule valid_load)
  have z: "0 < m_size tx" using i Suc.prems(2) by simp
  have sub: "set (assy i) \<subseteq> owned (m_size ty) assy" using i by (auto simp: owned_iff)
  from heap_copy_chain_separate [OF Suc.prems(1) assms(2) z p(2) sub, of F]
  obtain m1 assx1 tx1 where
    *: "heap_copy_chain F x p m = Some m1"
       "copy_chain F (chain_abs (cells m) (assy i)) tx = Some tx1" "m_size tx1 = m_size tx"
       "separate m1 x assx1 tx1 y assy ty" "tables m1 y = tables m y"
       "\<forall>a\<in>owned (m_size ty) assy. cells m1 a = cells m a" by blast
  have d: "d = m_size ty - Suc i" using Suc(2) by simp
  have e: "m_size tx1 = m_size ty" using *(3) Suc.prems(2) by simp
  from Suc(1) [OF d *(4) e] obtain m' assx' tx' where
    **: "heap_copy_buckets F x y (Suc i) m1 = Some m'"
        "copy_buckets F ty (Suc i) tx1 = Some tx'" "m_size tx' = m_size ty"
        "separate m' x assx' tx' y assy ty" "tables m' y = tables m1 y"
        "\<forall>a\<in>owned (m_size ty) assy. cells m' a = cells m1 a" by blast
  have h: "heap_copy_buckets F x y i m = Some m'"
    using i sz mu lg p(1) *(1) **(1) by (subst heap_copy_buckets.simps) simp
  have c: "copy_buckets F ty i tx = Some tx'"
    using i lg vl *(2) **(2) p(3) by (subst copy_buckets.simps) simp
  have "\<forall>a\<in>owned (m_size ty) assy. cells m' a = cells m a" using **(6) *(6) by simp
  with h c **(3,4,5) *(5) show ?case by auto
qed

lemma owned_empty: "owned n (\<lambda>i. []) = {}"
  by (simp add: owned_def)

lemma held_allocate:
  "held (heap_allocateTableAndMutexes x n m) x (\<lambda>i. []) (allocateTableAndMutexes n)"
proof -
  let ?t = "allocateTableAndMutexes n :: ('a, 'b) HashMap"
  let ?m = "heap_allocateTableAndMutexes x n m"
  have v: "valid ?t" by (rule valid_allocate)
  have s: "m_size ?t = n" "t_size (tables ?m x) = n" "t_mutexes (tables ?m x) = m_mutexes ?t"
    by (simp_all add: allocateTableAndMutexes_def heap_allocateTableAndMutexes_def)
  have l: "load (t_table (tables ?m x)) i = Some None" if "i < n" for i
    using that by (simp add: load_def heap_allocateTableAndMutexes_def)
  have ini: "initialised (t_table (tables ?m x)) n"
    by (simp add: initialised_def heap_allocateTableAndMutexes_def)
  have "rep (cells ?m) (tables ?m x) (\<lambda>i. []) ?t"
    unfolding rep_iff s using v l ini by (simp add: chain_at_allocate)
  then show ?thesis by (simp add: held_def owned_empty)
qed

lemma separate_allocate:
  assumes "heap_ok m" "held m y assy ty" "x \<noteq> y"
  shows "separate (heap_allocateTableAndMutexes x n m) x (\<lambda>i. []) (allocateTableAndMutexes n) y assy ty"
proof -
  let ?m = "heap_allocateTableAndMutexes x n m"
  have "held ?m y assy ty"
    using assms(2) by (rule held_frame) (insert assms(3), simp_all add: heap_allocateTableAndMutexes_def)
  moreover have "heap_ok ?m" using assms(1) by (simp add: heap_ok_def heap_allocateTableAndMutexes_def)
  ultimately show ?thesis using held_allocate [of x n m] by (simp add: separate_def owned_empty)
qed

lemma heap_copy_from_allocated:
  assumes ok: "heap_ok m" and h: "held m y assy ty" and wf: "well_formed F ty" and n: "x \<noteq> y"
    and sz: "t_size (tables m y) = n"
  shows "\<exists>m' assx'. heap_copy_buckets F x y 0 (heap_allocateTableAndMutexes x n m) = Some m' \<and>
           separate m' x assx' ty y assy ty \<and> tables m' y = tables m y \<and>
           (\<forall>a\<in>owned (m_size ty) assy. cells m' a = cells m a)"
proof -
  let ?m = "heap_allocateTableAndMutexes x n m"
  from h have r: "rep (cells m) (tables m y) assy ty" by (simp add: held_def)
  then have v: "valid ty" and e: "n = m_size ty" using sz by (simp_all add: rep_iff)
  have s: "separate ?m x (\<lambda>i. []) (allocateTableAndMutexes n) y assy ty"
    using ok h n by (rule separate_allocate)
  have ms: "m_size (allocateTableAndMutexes n :: ('a, 'b) HashMap) = m_size ty"
    by (simp add: allocateTableAndMutexes_def e)
  from heap_copy_buckets_separate [OF s n ms, of F 0] obtain m' assx' tx' where
    *: "heap_copy_buckets F x y 0 ?m = Some m'"
       "copy_buckets F ty 0 (allocateTableAndMutexes n) = Some tx'"
       "separate m' x assx' tx' y assy ty" "tables m' y = tables ?m y"
       "\<forall>a\<in>owned (m_size ty) assy. cells m' a = cells ?m a" by blast
  from copy_buckets_equal [OF v wf] *(2) have "tx' = ty" by (simp add: e)
  moreover have "tables ?m y = tables m y" "cells ?m = cells m"
    using n by (simp_all add: heap_allocateTableAndMutexes_def)
  ultimately show ?thesis using * by auto
qed

subsection \<open>Destruction in memory\<close>

text \<open>
  Destroying an object frees its own elements and nothing else; on an object without a
  table it does nothing.
\<close>

lemma heap_free_chain_path:
  "path (cells m) p as \<Longrightarrow> distinct as \<Longrightarrow>
     \<exists>m'. heap_free_chain p m = Some m' \<and> tables m' = tables m \<and> next_free m' = next_free m \<and>
       (\<forall>a. cells m' a = (if a \<in> set as then None else cells m a))"
proof (induction as arbitrary: p m)
  case Nil
  then have "heap_free_chain p m = Some m" by (subst heap_free_chain.simps) simp
  then show ?case by simp
next
  case (Cons a as)
  then obtain e where e: "p = Some a" "cells m a = Some e" "path (cells m) (e_next e) as"
    by (auto split: option.splits)
  let ?m1 = "delete_Element a m"
  have c1: "cells ?m1 = (cells m)(a := None)" and t1: "tables ?m1 = tables m"
    and n1: "next_free ?m1 = next_free m" by (simp_all add: delete_Element_def)
  from Cons.prems(2) have d: "a \<notin> set as" "distinct as" by simp_all
  have fr: "\<forall>b\<in>set as. cells ?m1 b = cells m b" using d(1) by (auto simp: c1)
  have p1: "path (cells ?m1) (e_next e) as"
    using e(3) by (simp only: path_frame [of as "cells ?m1" "cells m" "e_next e", OF fr])
  from Cons.IH [OF p1 d(2)] obtain m' where
    *: "heap_free_chain (e_next e) ?m1 = Some m'" "tables m' = tables ?m1"
       "next_free m' = next_free ?m1" "\<forall>b. cells m' b = (if b \<in> set as then None else cells ?m1 b)"
    by blast
  have h: "heap_free_chain p m = Some m'"
    using e(1,2) *(1) by (subst heap_free_chain.simps) simp
  have "\<forall>b. cells m' b = (if b \<in> set (a # as) then None else cells m b)"
    using *(4) by (simp add: c1)
  with h *(2,3) t1 n1 show ?case by simp
qed

lemma heap_destroy_buckets_frees:
  assumes "t_size (tables m x) = n" "\<forall>j<n. lock_guard (t_mutexes (tables m x)) j"
    "\<forall>j. i \<le> j \<and> j < n \<longrightarrow> (\<exists>p. load (t_table (tables m x)) j = Some p \<and> path (cells m) p (ass j))"
    "\<forall>j<n. distinct (ass j)"
    "\<forall>j<n. \<forall>j'<n. j \<noteq> j' \<longrightarrow> set (ass j) \<inter> set (ass j') = {}"
  shows "\<exists>m'. heap_destroy_buckets x i m = Some m' \<and> tables m' = tables m \<and>
           next_free m' = next_free m \<and>
           (\<forall>a. cells m' a = None \<or> cells m' a = cells m a) \<and>
           (\<forall>a. a \<notin> owned n ass \<longrightarrow> cells m' a = cells m a)"
  using assms(1,2,3)
proof (induction "n - i" arbitrary: i m)
  case 0
  then have "heap_destroy_buckets x i m = Some m" by (subst heap_destroy_buckets.simps) simp
  then show ?case by simp
next
  case (Suc d)
  then have i: "i < n" by simp
  have d: "d = n - Suc i" using Suc(2) by simp
  from Suc.prems(3) i obtain p where p: "load (t_table (tables m x)) i = Some p"
    "path (cells m) p (ass i)" by blast
  have lg: "lock_guard (t_mutexes (tables m x)) i" using Suc.prems(2) i by simp
  show ?case
  proof (cases p)
    case None
    have st: "heap_destroy_buckets x i m = heap_destroy_buckets x (Suc i) m"
      using i Suc.prems(1) lg p(1) None by (subst heap_destroy_buckets.simps) simp
    have "\<forall>j. Suc i \<le> j \<and> j < n \<longrightarrow>
        (\<exists>p. load (t_table (tables m x)) j = Some p \<and> path (cells m) p (ass j))"
      using Suc.prems(3) by simp
    from Suc(1) [OF d Suc.prems(1,2) this] show ?thesis unfolding st .
  next
    case (Some a0)
    have di: "distinct (ass i)" using assms(4) i by simp
    from heap_free_chain_path [OF p(2) di] obtain m1 where
      *: "heap_free_chain p m = Some m1" "tables m1 = tables m" "next_free m1 = next_free m"
         "\<forall>a. cells m1 a = (if a \<in> set (ass i) then None else cells m a)" by blast
    have st: "heap_destroy_buckets x i m = heap_destroy_buckets x (Suc i) m1"
      using i Suc.prems(1) lg p(1) Some *(1)
      by (subst heap_destroy_buckets.simps) (simp add: delete_mutex_def)
    have pj: "\<forall>j. Suc i \<le> j \<and> j < n \<longrightarrow>
        (\<exists>p. load (t_table (tables m1 x)) j = Some p \<and> path (cells m1) p (ass j))"
    proof (intro allI impI)
      fix j assume j: "Suc i \<le> j \<and> j < n"
      then have "i \<le> j \<and> j < n" by simp
      with Suc.prems(3) obtain q where q: "load (t_table (tables m x)) j = Some q"
        "path (cells m) q (ass j)" by blast
      from j i assms(5) have "set (ass j) \<inter> set (ass i) = {}" by simp
      then have fr: "\<forall>b\<in>set (ass j). cells m1 b = cells m b" using *(4) by auto
      have "path (cells m1) q (ass j)"
        using q(2) by (simp only: path_frame [of "ass j" "cells m1" "cells m" q, OF fr])
      with q(1) show "\<exists>p. load (t_table (tables m1 x)) j = Some p \<and> path (cells m1) p (ass j)"
        by (simp add: *(2))
    qed
    have s1: "t_size (tables m1 x) = n" "\<forall>j<n. lock_guard (t_mutexes (tables m1 x)) j"
      using Suc.prems(1,2) by (simp_all add: *(2))
    from Suc(1) [OF d s1 pj] obtain m' where
      **: "heap_destroy_buckets x (Suc i) m1 = Some m'" "tables m' = tables m1"
          "next_free m' = next_free m1" "\<forall>a. cells m' a = None \<or> cells m' a = cells m1 a"
          "\<forall>a. a \<notin> owned n ass \<longrightarrow> cells m' a = cells m1 a" by blast
    have a: "cells m' b = None \<or> cells m' b = cells m b" for b
      using **(4) [rule_format, of b] *(4) [rule_format, of b] by (cases "b \<in> set (ass i)") auto
    have b: "cells m' b = cells m b" if "b \<notin> owned n ass" for b
    proof -
      from that i have "b \<notin> set (ass i)" by (auto simp: owned_iff)
      with **(5) that *(4) show ?thesis by simp
    qed
    show ?thesis unfolding st using **(1,2,3) *(2,3) a b by simp
  qed
qed

lemma heap_destroy_held:
  assumes ok: "heap_ok m" and h: "held m x ass t"
  shows "\<exists>m'. heap_destroyTableAndMutexes x m = Some m' \<and> heap_ok m' \<and>
           next_free m' = next_free m \<and> (\<forall>y. y \<noteq> x \<longrightarrow> tables m' y = tables m y) \<and>
           (\<forall>a. a \<notin> owned (m_size t) ass \<longrightarrow> cells m' a = cells m a)"
proof -
  let ?n = "m_size t"
  from h have r: "rep (cells m) (tables m x) ass t" by (simp add: held_def)
  then have sz: "t_size (tables m x) = ?n" and mu: "t_mutexes (tables m x) = m_mutexes t"
    and v: "valid t" by (simp_all add: rep_iff)
  have lg: "\<forall>j<?n. lock_guard (t_mutexes (tables m x)) j"
  proof (intro allI impI)
    fix j assume "j < ?n"
    with v obtain mx where "load (m_mutexes t) j = Some mx"
      unfolding valid_def using initialised_load by blast
    then show "lock_guard (t_mutexes (tables m x)) j" by (simp add: lock_guard_def mu)
  qed
  have pj: "\<forall>j. 0 \<le> j \<and> j < ?n \<longrightarrow>
      (\<exists>p. load (t_table (tables m x)) j = Some p \<and> path (cells m) p (ass j))"
    using rep_bucket [OF r] by blast
  have di: "\<forall>j<?n. distinct (ass j)" using rep_distinct [OF r] by blast
  have dj: "\<forall>j<?n. \<forall>j'<?n. j \<noteq> j' \<longrightarrow> set (ass j) \<inter> set (ass j') = {}"
    using rep_disjoint [OF r] by blast
  from heap_destroy_buckets_frees [OF sz lg pj di dj] obtain m1 where
    *: "heap_destroy_buckets x 0 m = Some m1" "tables m1 = tables m" "next_free m1 = next_free m"
       "\<forall>a. cells m1 a = None \<or> cells m1 a = cells m a"
       "\<forall>a. a \<notin> owned ?n ass \<longrightarrow> cells m1 a = cells m a" by blast
  from v mu obtain ms where ms: "t_mutexes (tables m x) = Array ms"
    by (auto simp: valid_def initialised_def split: arrayptr.splits)
  from r obtain cs where cs: "t_table (tables m x) = Array cs"
    by (auto simp: rep_iff initialised_def split: arrayptr.splits)
  let ?m' = "m1\<lparr>tables := (tables m1)(x := \<lparr>t_size = 0, t_table = Dangling, t_mutexes = Dangling\<rparr>)\<rparr>"
  have d: "heap_destroyTableAndMutexes x m = Some ?m'"
    using * ms cs by (simp add: heap_destroyTableAndMutexes_def delete_array_def)
  have "heap_ok ?m'"
    unfolding heap_ok_def
  proof (intro allI impI)
    fix a assume "next_free ?m' \<le> a"
    then have "cells m a = None" using ok *(3) by (simp add: heap_ok_def)
    with *(4) [rule_format, of a] show "cells ?m' a = None" by auto
  qed
  with d * show ?thesis by simp
qed

lemma heap_destroy_null:
  "t_table (tables m x) = nullarray \<Longrightarrow> heap_destroyTableAndMutexes x m = Some m"
  by (simp add: heap_destroyTableAndMutexes_def)

subsection \<open>The copy operations\<close>

text \<open>
  Both copy operations leave the two objects with the same table in elements that they
  do not share; from a source without a table they leave a table of capacity 0.
\<close>

lemma heap_run_size0:
  "t_size (tables m x) = 0 \<Longrightarrow> heap_run F x ops m = Some m2 \<Longrightarrow> m2 = m"
proof (cases ops)
  case Nil
  assume "heap_run F x ops m = Some m2"
  with Nil show ?thesis by simp
next
  case (Cons ope ops')
  assume z: "t_size (tables m x) = 0" and r: "heap_run F x ops m = Some m2"
  from z have "heap_apply_op F ope x m = Undefined"
    by (cases ope) (simp_all add: heap_insert_def heap_remove_def heap_bucket_size0)
  with r Cons show ?thesis by simp
qed

lemma heap_lookup_size0:
  "t_size (tables m x) = 0 \<Longrightarrow> heap_lookup F k x m = Undefined"
  by (simp add: heap_lookup_def heap_bucket_size0)

lemma heap_copy_buckets_size0:
  "t_size (tables m y) = 0 \<Longrightarrow> heap_copy_buckets F x y i m = Some m"
  by (subst heap_copy_buckets.simps) simp

lemma heap_destroy_destination:
  assumes ok: "heap_ok m" and n: "x \<noteq> y"
    and dst: "t_table (tables m x) = nullarray \<or> held m x assx tx \<and> owned (m_size tx) assx \<inter> S = {}"
  shows "\<exists>m0. heap_destroyTableAndMutexes x m = Some m0 \<and> heap_ok m0 \<and>
           next_free m0 = next_free m \<and> tables m0 y = tables m y \<and> (\<forall>a\<in>S. cells m0 a = cells m a)"
proof (cases "t_table (tables m x) = nullarray")
  case True
  from heap_destroy_null [OF True] ok show ?thesis by simp
next
  case False
  with dst have h: "held m x assx tx" and dj: "owned (m_size tx) assx \<inter> S = {}" by simp_all
  from heap_destroy_held [OF ok h] obtain m0 where
    *: "heap_destroyTableAndMutexes x m = Some m0" "heap_ok m0" "next_free m0 = next_free m"
       "\<forall>y. y \<noteq> x \<longrightarrow> tables m0 y = tables m y"
       "\<forall>a. a \<notin> owned (m_size tx) assx \<longrightarrow> cells m0 a = cells m a" by blast
  have "\<forall>a\<in>S. cells m0 a = cells m a" using *(5) dj by blast
  moreover have "tables m0 y = tables m y" using *(4) n by simp
  ultimately show ?thesis using *(1,2,3) by simp
qed

lemma copy_held:
  assumes ok: "heap_ok m" and h: "held m y assy ty" and wf: "well_formed F ty" and n: "x \<noteq> y"
    and r: "r = heap_copy_construct F x y m \<or>
            r = heap_copy_assign F x y m \<and>
              (t_table (tables m x) = nullarray \<or>
               held m x assx tx \<and> owned (m_size tx) assx \<inter> owned (m_size ty) assy = {})"
  shows "\<exists>m1 ass1. r = Return () m1 \<and> separate m1 x ass1 ty y assy ty \<and>
           tables m1 y = tables m y \<and> (\<forall>a\<in>owned (m_size ty) assy. cells m1 a = cells m a)"
proof -
  from r consider "r = heap_copy_construct F x y m"
    | "r = heap_copy_assign F x y m"
      "t_table (tables m x) = nullarray \<or>
       held m x assx tx \<and> owned (m_size tx) assx \<inter> owned (m_size ty) assy = {}" by blast
  then show ?thesis
  proof cases
    case 1
    from heap_copy_from_allocated [OF ok h wf n refl] obtain m1 ass1 where
      *: "heap_copy_buckets F x y 0 (heap_allocateTableAndMutexes x (t_size (tables m y)) m) = Some m1"
         "separate m1 x ass1 ty y assy ty" "tables m1 y = tables m y"
         "\<forall>a\<in>owned (m_size ty) assy. cells m1 a = cells m a" by blast
    from *(1) 1 have "r = Return () m1" by (simp add: heap_copy_construct_def)
    with *(2,3,4) show ?thesis by blast
  next
    case 2
    from heap_destroy_destination [OF ok n 2(2)] obtain m0 where
      d: "heap_destroyTableAndMutexes x m = Some m0" "heap_ok m0" "next_free m0 = next_free m"
         "tables m0 y = tables m y" "\<forall>a\<in>owned (m_size ty) assy. cells m0 a = cells m a" by blast
    have nf: "next_free m \<le> next_free m0" using d(3) by simp
    have h0: "held m0 y assy ty" using h d(4) nf d(5) by (rule held_frame)
    from heap_copy_from_allocated [OF d(2) h0 wf n refl] obtain m1 ass1 where
      *: "heap_copy_buckets F x y 0 (heap_allocateTableAndMutexes x (t_size (tables m0 y)) m0) = Some m1"
         "separate m1 x ass1 ty y assy ty" "tables m1 y = tables m0 y"
         "\<forall>a\<in>owned (m_size ty) assy. cells m1 a = cells m0 a" by blast
    from *(1) d(1) n 2(1) have "r = Return () m1" by (simp add: heap_copy_assign_def)
    moreover have "\<forall>a\<in>owned (m_size ty) assy. cells m1 a = cells m a" using *(4) d(5) by simp
    ultimately show ?thesis using *(2,3) d(4) by auto
  qed
qed

lemma copy_default:
  assumes ok: "heap_ok m" and s: "tables m y = heap_HashMap_default" and n: "x \<noteq> y"
    and r: "r = heap_copy_construct F x y m \<or>
            r = heap_copy_assign F x y m \<and>
              (t_table (tables m x) = nullarray \<or> held m x assx tx)"
  shows "\<exists>m1. r = Return () m1 \<and> heap_ok m1 \<and> tables m1 y = tables m y \<and>
           held m1 x (\<lambda>i. []) (allocateTableAndMutexes 0)"
proof -
  have z: "t_size (tables m y) = 0" using s by (simp add: heap_HashMap_default_def)
  have al: "heap_copy_buckets F x y 0 (heap_allocateTableAndMutexes x 0 m') =
      Some (heap_allocateTableAndMutexes x 0 m')" if "t_size (tables m' y) = 0" for m' :: "('a, 'b) memory"
    using that n by (intro heap_copy_buckets_size0) (simp add: heap_allocateTableAndMutexes_def)
  have fin: ?thesis if "r = Return () (heap_allocateTableAndMutexes x 0 m')" "heap_ok m'"
    "tables m' y = tables m y" for m' :: "('a, 'b) memory"
  proof -
    have "heap_ok (heap_allocateTableAndMutexes x 0 m')"
      using that(2) by (simp add: heap_ok_def heap_allocateTableAndMutexes_def)
    moreover have "tables (heap_allocateTableAndMutexes x 0 m') y = tables m y"
      using that(3) n by (simp add: heap_allocateTableAndMutexes_def)
    ultimately show ?thesis using that(1) held_allocate [of x 0 m'] by blast
  qed
  from r consider "r = heap_copy_construct F x y m"
    | "r = heap_copy_assign F x y m" "t_table (tables m x) = nullarray \<or> held m x assx tx" by blast
  then show ?thesis
  proof cases
    case 1
    with al [OF z] z have "r = Return () (heap_allocateTableAndMutexes x 0 m)"
      by (simp add: heap_copy_construct_def)
    then show ?thesis using ok by (rule fin) simp
  next
    case 2
    from 2(2) have "t_table (tables m x) = nullarray \<or>
        held m x assx tx \<and> owned (m_size tx) assx \<inter> {} = {}" by simp
    from heap_destroy_destination [OF ok n this] obtain m0 where
      d: "heap_destroyTableAndMutexes x m = Some m0" "heap_ok m0" "tables m0 y = tables m y" by blast
    have z0: "t_size (tables m0 y) = 0" using z d(3) by simp
    from al [OF z0] z0 d(1) n 2(1) have "r = Return () (heap_allocateTableAndMutexes x 0 m0)"
      by (simp add: heap_copy_assign_def)
    then show ?thesis using d(2,3) by (rule fin)
  qed
qed

lemma contents_size0: "m_size t = 0 \<Longrightarrow> contents t = []"
  by (simp add: contents_def)

subsection \<open>The concrete memory\<close>

text \<open>
  The concrete memory satisfies the notions above, and its object 1 is what the code
  builds. Two objects that share their elements are not independent: an insert through
  one of them changes a lookup through the other.
\<close>

lemma example_memory_ok: "heap_ok example_memory"
  by (simp add: heap_ok_def example_memory_def)

lemma example_memory_held: "held example_memory 1 example_addresses example_table"
  by (simp add: held_def rep_def owned_def example_memory_def example_addresses_def example_table_def
      valid_def initialised_def load_def chain_at_def upt_rec numeral_2_eq_2)

lemma example_memory_held_2: "held example_memory 2 (\<lambda>i. [3]) nought_table"
  by (simp add: held_def rep_def owned_def example_memory_def nought_table_def
      valid_def initialised_def load_def chain_at_def)

lemma example_memory_built:
  "map_option (\<lambda>m. (cells m 0, cells m 1, cells m 2, next_free m, tables m 1))
     (heap_run (\<lambda>k. k) 1 [Insert 0 ''zero'', Insert 2 ''two'', Insert 1 ''one'']
        (heap_allocateTableAndMutexes 1 2 empty_memory)) =
   Some (cells example_memory 0, cells example_memory 1, cells example_memory 2, 3,
         tables example_memory 1)"
  by (simp add: empty_memory_def example_memory_def heap_allocateTableAndMutexes_def
      heap_insert_def heap_bucket_def lock_guard_def load_def store_def new_Element_def
      set_bucket_def heap_insert_stop.simps numeral_2_eq_2)

lemma shared_elements_not_independent:
  "\<exists>m2. heap_run (\<lambda>k. k) 1 [Insert 2 ''deux''] shared_memory = Some m2 \<and>
     observe (heap_lookup (\<lambda>k. k) 2 0 shared_memory) = Return ''two'' () \<and>
     observe (heap_lookup (\<lambda>k. k) 2 0 m2) = Return ''deux'' ()"
proof -
  let ?c = "cells shared_memory"
  let ?m2 = "shared_memory\<lparr>cells := ?c(1 := Some \<lparr>e_key = 2, e_value = ''deux'', e_next = None\<rparr>)\<rparr>"
  have b: "heap_bucket (\<lambda>k. k) shared_memory 1 2 = Some (0, Some 0)"
    "heap_bucket (\<lambda>k. k) shared_memory 0 2 = Some (0, Some 0)"
    "heap_bucket (\<lambda>k. k) ?m2 0 2 = Some (0, Some 0)"
    by (simp_all add: heap_bucket_def shared_memory_def example_memory_def lock_guard_def load_def)
  have c: "?c 0 = Some \<lparr>e_key = 0, e_value = ''zero'', e_next = Some 1\<rparr>"
    "?c 1 = Some \<lparr>e_key = 2, e_value = ''two'', e_next = None\<rparr>"
    by (simp_all add: shared_memory_def example_memory_def)
  let ?c2 = "?c(1 := Some \<lparr>e_key = 2, e_value = ''deux'', e_next = None\<rparr>)"
  have m2: "cells ?m2 = ?c2" "tables ?m2 = tables shared_memory" by simp_all
  have c2: "?c2 0 = Some \<lparr>e_key = 0, e_value = ''zero'', e_next = Some 1\<rparr>"
    "?c2 1 = Some \<lparr>e_key = 2, e_value = ''deux'', e_next = None\<rparr>"
    by (simp_all add: c)
  have s1: "heap_insert_stop ?c 2 1 = Some 1"
    by (subst heap_insert_stop.simps) (simp add: c del: One_nat_def)
  have s: "heap_insert_stop ?c 2 0 = Some 1"
    by (subst heap_insert_stop.simps) (simp add: c s1 del: One_nat_def)
  have i: "heap_insert (\<lambda>k. k) 2 ''deux'' 1 shared_memory = Return () ?m2"
    by (simp add: heap_insert_def b s c del: One_nat_def)
  have sc1: "heap_scan ?c 2 (Some 1) = Some (Some 1)"
    by (subst heap_scan.simps) (simp add: c del: One_nat_def)
  have sc: "heap_scan ?c 2 (Some 0) = Some (Some 1)"
    by (subst heap_scan.simps) (simp add: c sc1 del: One_nat_def)
  have sc21: "heap_scan ?c2 2 (Some 1) = Some (Some 1)"
    apply (subst heap_scan.simps)
    apply (simp only: c2 option.case)
    apply simp
    done
  have sc2: "heap_scan ?c2 2 (Some 0) = Some (Some 1)"
    apply (subst heap_scan.simps)
    apply (simp only: c2 option.case)
    apply (simp only: element.simps sc21)
    apply simp
    done
  have l2: "heap_lookup (\<lambda>k. k) 2 0 ?m2 = Return ''deux'' ?m2"
    unfolding heap_lookup_def b m2
    apply (simp only: option.case prod.case sc2)
    apply (simp only: c2 option.case element.simps)
    done
  have "heap_run (\<lambda>k. k) 1 [Insert 2 ''deux''] shared_memory = Some ?m2"
    by (simp add: i del: One_nat_def)
  moreover have "observe (heap_lookup (\<lambda>k. k) 2 0 shared_memory) = Return ''two'' ()"
    by (simp add: heap_lookup_def b sc c observe_def del: One_nat_def)
  moreover have "observe (heap_lookup (\<lambda>k. k) 2 0 ?m2) = Return ''deux'' ()"
    unfolding l2 by (simp add: observe_def)
  ultimately show ?thesis by blast
qed

section \<open>The claims\<close>

text \<open>
  C1. On a table with capacity \<open>> 0\<close> whose slots are all initialised, \<open>insert(k, v)\<close>
  returns, any later run of inserts and removes on other keys returns, and afterwards
  \<open>lookup(k)\<close> returns \<open>v\<close> and \<open>exists(k)\<close> returns \<open>true\<close>.
\<close>

theorem C1_insert_then_lookup:
  assumes "valid t" "0 < m_size t" "\<forall>x\<in>set ops. op_key x \<noteq> k"
  shows "\<exists>t1 t2. HashMap_insert F k v t = Return () t1 \<and> run F ops t1 = Some t2 \<and>
           HashMap_lookup F k t2 = Return v t2 \<and> HashMap_exists F k t2 = Return True t2"
proof -
  obtain t1 where t1: "apply_op F (Insert k v) t = Return () t1" and v1: "valid t1" "m_size t1 = m_size t"
    using apply_op_valid [OF assms(1,2), of F "Insert k v"] by (auto simp: insert_never_throws)
  from t1 have ins: "HashMap_insert F k v t = Return () t1" by simp
  obtain t2 where t2: "run F ops t1 = Some t2"
    using run_valid [of t1 F ops] v1 assms(2) by auto
  have "HashMap_lookup F k t1 = Return v t1" using lookup_after_insert [OF ins, of k] by simp
  then have l: "HashMap_lookup F k t2 = Return v t2" using run_keeps_lookup [OF assms(3) _ t2] by simp
  then have "HashMap_exists F k t2 = Return True t2" by (simp add: exists_lookup)
  with ins t2 l show ?thesis by blast
qed

theorem C1_insert_then_lookup_witness:
  "\<exists>t1 t2. HashMap_insert (\<lambda>k. k) (1::nat) ''one'' (HashMap_sized 2) = Return () t1 \<and>
     run (\<lambda>k. k) [Insert 3 ''three'', Remove 3, Remove 5, Insert 2 ''two''] t1 = Some t2 \<and>
     HashMap_lookup (\<lambda>k. k) 1 t2 = Return ''one'' t2 \<and>
     HashMap_exists (\<lambda>k. k) 1 t2 = Return True t2"
proof -
  have v: "valid (HashMap_sized 2 :: (nat, string) HashMap)"
    by (simp add: valid_def initialised_def HashMap_sized_def allocateTableAndMutexes_def)
  have s: "0 < m_size (HashMap_sized 2 :: (nat, string) HashMap)"
    by (simp add: HashMap_sized_def allocateTableAndMutexes_def)
  have k: "\<forall>x\<in>set [Insert 3 ''three'', Remove 3, Remove 5, Insert 2 ''two'']. op_key x \<noteq> (1::nat)"
    by simp
  show ?thesis by (rule C1_insert_then_lookup [OF v s k])
qed

text \<open>
  C2. On a valid table with capacity \<open>> 0\<close>, \<open>insert(k, v1)\<close> then \<open>insert(k, v2)\<close> both
  return, \<open>lookup(k)\<close> then returns \<open>v2\<close>, and the second insert leaves the length of the
  chain of \<open>k\<close>'s bucket as it was. An insert changes no other bucket; in the bucket of
  \<open>k\<close> it overwrites the value of the entry with key \<open>k\<close> in place when there is one, and
  appends one entry at the tail otherwise.
\<close>

theorem C2_insert_upsert:
  assumes "valid t" "0 < m_size t"
  shows "\<exists>t1 t2.
           HashMap_insert F k v1 t = Return () t1 \<and> HashMap_insert F k v2 t1 = Return () t2 \<and>
           HashMap_lookup F k t2 = Return v2 t2 \<and>
           length (entries (chain_at t2 (F k mod m_size t))) = length (entries (chain_at t1 (F k mod m_size t))) \<and>
           (\<forall>j. j \<noteq> F k mod m_size t \<longrightarrow> chain_at t1 j = chain_at t j \<and> chain_at t2 j = chain_at t j) \<and>
           (if k \<in> fst ` set (entries (chain_at t (F k mod m_size t)))
            then \<exists>xs v0 ys. entries (chain_at t (F k mod m_size t)) = xs @ (k, v0) # ys \<and> k \<notin> fst ` set xs \<and>
                   entries (chain_at t1 (F k mod m_size t)) = xs @ (k, v1) # ys
            else entries (chain_at t1 (F k mod m_size t)) = entries (chain_at t (F k mod m_size t)) @ [(k, v1)])"
proof -
  let ?i = "F k mod m_size t"
  let ?p = "chain_at t ?i"
  define t1 where "t1 = t\<lparr>m_table := store (m_table t) ?i (insert_chain k v1 ?p)\<rparr>"
  define t2 where "t2 = t1\<lparr>m_table := store (m_table t1) ?i (insert_chain k v2 (insert_chain k v1 ?p))\<rparr>"
  have i: "?i < m_size t" using assms(2) by simp
  have l: "load (m_table t) ?i = Some ?p" using assms(1) i by (rule valid_load)
  have b: "bucket F t k = Some (?i, ?p)" using assms by (rule valid_bucket_chain)
  then have ins1: "HashMap_insert F k v1 t = Return () t1" by (simp add: HashMap_insert_def t1_def)
  have v1: "valid t1" "m_size t1 = m_size t" using assms(1) i by (simp_all add: t1_def valid_store)
  have c1: "chain_at t1 j = (if j = ?i then insert_chain k v1 ?p else chain_at t j)" for j
    unfolding t1_def by (rule chain_at_store [OF l])
  have b1: "bucket F t1 k = Some (?i, insert_chain k v1 ?p)"
    using valid_bucket_chain [of t1 F k] v1 assms(2) c1 by simp
  then have ins2: "HashMap_insert F k v2 t1 = Return () t2" by (simp add: HashMap_insert_def t2_def)
  have l1: "load (m_table t1) ?i = Some (insert_chain k v1 ?p)" using b1 by (simp add: bucket_index)
  have c2: "chain_at t2 j = (if j = ?i then insert_chain k v2 (insert_chain k v1 ?p) else chain_at t1 j)" for j
    unfolding t2_def by (rule chain_at_store [OF l1])
  have look: "HashMap_lookup F k t2 = Return v2 t2" using lookup_after_insert [OF ins2, of k] by simp
  have pres: "k \<in> fst ` set (entries (insert_chain k v1 ?p))" by (simp add: keys_insert_chain)
  from insert_chain_present [OF pres, of v2]
  have len: "length (entries (insert_chain k v2 (insert_chain k v1 ?p))) = length (entries (insert_chain k v1 ?p))"
    by auto
  have upsert: "if k \<in> fst ` set (entries ?p)
            then \<exists>xs v0 ys. entries ?p = xs @ (k, v0) # ys \<and> k \<notin> fst ` set xs \<and>
                   entries (insert_chain k v1 ?p) = xs @ (k, v1) # ys
            else entries (insert_chain k v1 ?p) = entries ?p @ [(k, v1)]"
    using insert_chain_present [of k ?p v1] insert_chain_absent [of k ?p v1] by simp
  show ?thesis
    apply (rule exI [of _ t1], rule exI [of _ t2])
    using ins1 ins2 look len upsert by (simp add: c1 c2)
qed

theorem C2_insert_upsert_witness:
  "\<exists>t1 t2. HashMap_insert (\<lambda>k. k) 2 ''deux'' example_table = Return () t1 \<and>
     HashMap_insert (\<lambda>k. k) 2 ''zwei'' t1 = Return () t2 \<and>
     HashMap_lookup (\<lambda>k. k) 2 t2 = Return ''zwei'' t2 \<and>
     length (entries (chain_at t2 0)) = length (entries (chain_at t1 0))"
proof -
  have v: "valid example_table" by (simp add: valid_def initialised_def example_table_def)
  have s: "0 < m_size example_table" by (simp add: example_table_def)
  have i: "(\<lambda>k. k) 2 mod m_size example_table = 0" by (simp add: example_table_def)
  from C2_insert_upsert [OF v s, of "\<lambda>k. k" 2 "''deux''" "''zwei''"] show ?thesis
    unfolding i by blast
qed

text \<open>
  C3. The claim is that after inserting keys and resizing to a larger capacity every key
  is looked up with its value. The code fails it. \<^verbatim>\<open>resize\<close> reads the slots of the new
  table without having written them; it deletes the mutex of a non-empty bucket while
  the guard of the loop body still owns it; and it installs a new mutex array that holds
  no mutex. On a table of capacity 1 with one entry, \<open>resize(2)\<close> is undefined; on the empty
  table of capacity 1 it returns, and the next \<open>lookup\<close> or \<open>insert\<close> is undefined.
\<close>

theorem C3_resize_undefined:
  "HashMap_insert (\<lambda>k. k) 0 ''zero'' (HashMap_sized 1) = Return () one_entry_table \<and>
   HashMap_resize (\<lambda>k. k) 2 one_entry_table = Undefined \<and>
   HashMap_resize (\<lambda>k. k) 2 (HashMap_sized 1) = Return () resized_empty_table \<and>
   HashMap_lookup (\<lambda>k. k) 0 resized_empty_table = Undefined \<and>
   HashMap_insert (\<lambda>k. k) 0 ''zero'' resized_empty_table = Undefined"
  by code_simp

text \<open>
  C4. On a valid table with capacity \<open>> 0\<close> that holds no entry with key \<open>k\<close>,
  \<open>lookup(k)\<close> and \<open>remove(k)\<close> both throw \<^verbatim>\<open>std::out_of_range\<close> and leave the table as it
  was.
\<close>

theorem C4_absent_key:
  assumes "valid t" "0 < m_size t" "k \<notin> fst ` set (contents t)"
  shows "HashMap_lookup F k t = Throw out_of_range t \<and> HashMap_remove F k t = Throw out_of_range t"
proof -
  let ?i = "F k mod m_size t"
  have b: "bucket F t k = Some (?i, chain_at t ?i)" using assms(1,2) by (rule valid_bucket_chain)
  from assms(2) have "?i < m_size t" by simp
  with assms(3) have a: "k \<notin> fst ` set (entries (chain_at t ?i))"
    using entries_in_contents [of ?i t] by auto
  then have "found k (chain_at t ?i) = None" "scan k (chain_at t ?i) = nullptr"
    by (simp_all add: found_None_iff scan_nullptr_iff)
  with b show ?thesis by (simp add: lookup_found HashMap_remove_def)
qed

theorem C4_absent_key_witness:
  "HashMap_lookup (\<lambda>k. k) 5 example_table = Throw out_of_range example_table \<and>
   HashMap_remove (\<lambda>k. k) 5 example_table = Throw out_of_range example_table"
proof -
  have v: "valid example_table" by (simp add: valid_def initialised_def example_table_def)
  have s: "0 < m_size example_table" by (simp add: example_table_def)
  have "contents example_table = [(0, ''zero''), (2, ''two''), (1, ''one'')]" by code_simp
  then have a: "5 \<notin> fst ` set (contents example_table)" by simp
  show ?thesis using v s a by (rule C4_absent_key)
qed

text \<open>
  C5. On a valid table that satisfies the invariant and holds an entry with key \<open>k\<close>,
  \<open>remove(k)\<close> returns; it unlinks that one entry from the chain of its bucket and
  changes no other bucket; afterwards \<open>exists(k)\<close> returns \<open>false\<close>, \<open>lookup(k)\<close> throws
  \<^verbatim>\<open>std::out_of_range\<close>, and every other key that could be looked up before is looked
  up with the same value.
\<close>

theorem C5_remove_present:
  assumes "valid t" "well_formed F t" "k \<in> fst ` set (contents t)"
  shows "\<exists>t' xs v0 ys.
           HashMap_remove F k t = Return () t' \<and>
           entries (chain_at t (F k mod m_size t)) = xs @ (k, v0) # ys \<and>
           k \<notin> fst ` set (xs @ ys) \<and>
           entries (chain_at t' (F k mod m_size t)) = xs @ ys \<and>
           (\<forall>j. j \<noteq> F k mod m_size t \<longrightarrow> chain_at t' j = chain_at t j) \<and>
           HashMap_exists F k t' = Return False t' \<and>
           HashMap_lookup F k t' = Throw out_of_range t' \<and>
           (\<forall>k' v'. k' \<noteq> k \<longrightarrow> HashMap_lookup F k' t = Return v' t \<longrightarrow> HashMap_lookup F k' t' = Return v' t')"
proof -
  let ?i = "F k mod m_size t"
  let ?p = "chain_at t ?i"
  define t' where "t' = t\<lparr>m_table := store (m_table t) ?i (unlink k ?p)\<rparr>"
  from assms(3) obtain v where "(k, v) \<in> set (contents t)" by auto
  from contents_placed [OF assms(1,2) this] have s: "0 < m_size t" and pres: "k \<in> fst ` set (entries ?p)"
    by (auto simp: rev_image_eqI)
  have i: "?i < m_size t" using s by simp
  have l: "load (m_table t) ?i = Some ?p" using assms(1) i by (rule valid_load)
  have b: "bucket F t k = Some (?i, ?p)" using assms(1) s by (rule valid_bucket_chain)
  from pres have "scan k ?p \<noteq> nullptr" by (simp add: scan_nullptr_iff)
  with b have rem: "HashMap_remove F k t = Return () t'" by (simp add: HashMap_remove_def t'_def)
  have c: "chain_at t' j = (if j = ?i then unlink k ?p else chain_at t j)" for j
    unfolding t'_def by (rule chain_at_store [OF l])
  have v': "valid t'" "m_size t' = m_size t" using assms(1) i by (simp_all add: t'_def valid_store)
  have b': "bucket F t' k = Some (?i, unlink k ?p)"
    using valid_bucket_chain [of t' F k] v' s c by simp
  from assms(2) i l have "chain_ok F (m_size t) ?i ?p" by (simp add: well_formed_def array_ok_iff)
  then have dist: "distinct (map fst (entries ?p))" by (simp add: chain_ok_def)
  then have gone: "found k (unlink k ?p) = None" by (simp add: found_None_iff unlink_gone)
  with b' have ex: "HashMap_exists F k t' = Return False t'" and lk: "HashMap_lookup F k t' = Throw out_of_range t'"
    by (simp_all add: exists_found lookup_found)
  have others: "HashMap_lookup F k' t' = Return v' t'" if "k' \<noteq> k" "HashMap_lookup F k' t = Return v' t" for k' v'
    using lookup_after_remove [OF rem that(1)] that(2) by simp
  from unlink_present [OF pres] obtain xs v0 ys where
    *: "entries ?p = xs @ (k, v0) # ys" "entries (unlink k ?p) = xs @ ys" by blast
  from dist have "k \<notin> fst ` set (xs @ ys)" unfolding *(1) by auto
  note * = * this
  show ?thesis
    apply (rule exI [of _ t'], rule exI [of _ xs], rule exI [of _ v0], rule exI [of _ ys])
    using rem * ex lk others by (simp add: c)
qed

theorem C5_remove_present_witness:
  "\<exists>t'. HashMap_remove (\<lambda>k. k) 0 example_table = Return () t' \<and>
     entries (chain_at t' 0) = [(2, ''two'')] \<and>
     HashMap_exists (\<lambda>k. k) 0 t' = Return False t' \<and>
     HashMap_lookup (\<lambda>k. k) 0 t' = Throw out_of_range t' \<and>
     HashMap_lookup (\<lambda>k. k) 2 t' = Return ''two'' t'"
proof -
  have v: "valid example_table" by (simp add: valid_def initialised_def example_table_def)
  have w: "well_formed (\<lambda>k. k) example_table" by code_simp
  have "contents example_table = [(0, ''zero''), (2, ''two''), (1, ''one'')]" by code_simp
  then have a: "0 \<in> fst ` set (contents example_table)" by simp
  have i: "(\<lambda>k. k) 0 mod m_size example_table = 0" by (simp add: example_table_def)
  have e: "entries (chain_at example_table 0) = [(0, ''zero''), (2, ''two'')]" by code_simp
  have l: "HashMap_lookup (\<lambda>k. k) 2 example_table = Return ''two'' example_table" by code_simp
  from C5_remove_present [OF v w a] obtain t' xs v0 ys where
    *: "HashMap_remove (\<lambda>k. k) 0 example_table = Return () t'"
       "entries (chain_at example_table 0) = xs @ (0, v0) # ys"
       "0 \<notin> fst ` set (xs @ ys)"
       "entries (chain_at t' 0) = xs @ ys"
       "HashMap_exists (\<lambda>k. k) 0 t' = Return False t'"
       "HashMap_lookup (\<lambda>k. k) 0 t' = Throw out_of_range t'"
       "\<forall>k' v'. k' \<noteq> 0 \<longrightarrow> HashMap_lookup (\<lambda>k. k) k' example_table = Return v' example_table \<longrightarrow>
          HashMap_lookup (\<lambda>k. k) k' t' = Return v' t'"
    unfolding i by blast
  from *(2,3) e have "xs = [] \<and> ys = [(2, ''two'')]" by (cases xs) auto
  with *(4) have "entries (chain_at t' 0) = [(2, ''two'')]" by simp
  moreover from *(7) l have "HashMap_lookup (\<lambda>k. k) 2 t' = Return ''two'' t'" by simp
  ultimately show ?thesis using *(1,5,6) by blast
qed

text \<open>
  C6. The claim is that in every state reachable from a sized construction by inserts,
  removes and resizes, the key of every entry in the chain of bucket \<open>i\<close> hashes to \<open>i\<close>.
  Inserts and removes keep this invariant (lemma \<open>hash_placement_insert_remove\<close>). The
  code fails the claim at \<^verbatim>\<open>resize\<close>, by the defects of C3: on a table of capacity 2 that
  holds three entries, \<open>resize(4)\<close> is undefined, so that no state with the entries placed
  modulo 4 is reached; on the empty table of capacity 2 it returns a table none of whose
  four buckets has been written.
\<close>

theorem C6_resize_reaches_no_state:
  "run (\<lambda>k. k) [Insert 0 ''zero'', Insert 2 ''two'', Insert 1 ''one''] (HashMap_sized 2) =
     Some example_table \<and>
   HashMap_resize (\<lambda>k. k) 4 example_table = Undefined \<and>
   HashMap_resize (\<lambda>k. k) 4 (HashMap_sized 2 :: (nat, string) HashMap) =
     Return () \<lparr>m_size = 4,
                 m_table = Array [Indeterminate, Indeterminate, Indeterminate, Indeterminate],
                 m_mutexes = Array [Indeterminate, Indeterminate, Indeterminate, Indeterminate]\<rparr>"
  by code_simp

text \<open>
  C7. The claim is that after a move construction or a move assignment the destination
  holds what the source held and the source is left as a default-constructed table. The
  move constructor does that (lemma \<open>move_construct_transfers\<close>). The code fails the claim
  at the move assignment: the statements of its body transfer the fields, but the
  operator has no \<^verbatim>\<open>return\<close> statement, so that every call of it is undefined. With a
  default-constructed destination (object 0) and the example table as source (object 1):
\<close>

theorem C7_move_assign_undefined:
  "move_assign example_objects 0 1 = Undefined \<and>
   map_option (\<lambda>s. (s 0, s 1)) (move_assign_body example_objects 0 1) =
     Some (example_table, HashMap_default) \<and>
   move_construct example_objects 0 1 0 = example_table \<and>
   move_construct example_objects 0 1 1 = HashMap_default"
proof -
  have d: "destroyTableAndMutexes (example_objects 0) = Some HashMap_default"
    by (simp add: destroyTableAndMutexes_def example_objects_def HashMap_default_def)
  have b: "move_assign_body example_objects 0 1 =
      Some (move_construct (example_objects(0 := HashMap_default)) 0 1)"
    by (simp add: move_assign_body_def d)
  have u: "move_assign example_objects 0 1 = Undefined"
    unfolding move_assign_def b by simp
  have c: "move_construct example_objects 0 1 0 = example_table"
    "move_construct example_objects 0 1 1 = HashMap_default"
    by (simp_all add: move_construct_def example_objects_def HashMap_default_def example_table_def)
  have c': "move_construct (example_objects(0 := HashMap_default)) 0 1 0 = example_table"
    "move_construct (example_objects(0 := HashMap_default)) 0 1 1 = HashMap_default"
    by (simp_all add: move_construct_def example_objects_def HashMap_default_def example_table_def)
  show ?thesis unfolding u b by (simp only: c c' option.map prod.inject simp_thms)
qed

text \<open>
  C8. Let \<open>other\<close> be an object that holds a table satisfying the invariant, or a
  default-constructed or moved-from object, in a memory where no cell lives beyond the
  addresses handed out. Let \<open>r\<close> be the outcome of constructing the object \<open>this\<close> as a
  copy of \<open>other\<close>, or of assigning \<open>other\<close> to an object \<open>this\<close> that has no table or
  holds one in elements of its own. Then the call returns; \<open>other\<close> is as it was; \<open>this\<close>
  holds a table of the same capacity with the same pairs, in elements that \<open>other\<close> does
  not own; and every lookup gives on \<open>this\<close> what it gives on \<open>other\<close>. After any later
  run of inserts and removes on one of the two objects every lookup on the other one,
  for every key, gives what it gave before the run, while the lookups on the object of
  the run are those of the table that the run leaves; and on a positive capacity every
  such run returns. (On capacity 0 every keyed call is undefined, on both objects. The
  tables that \<^verbatim>\<open>resize\<close> leaves, see C3, are outside the hypothesis.)
\<close>

theorem C8_copy_independent:
  assumes n: "this \<noteq> other" and ok: "heap_ok m"
    and src: "stores m other asso t" and wf: "well_formed F t"
    and r: "r = heap_copy_construct F this other m \<or>
            r = heap_copy_assign F this other m \<and>
              (t_table (tables m this) = nullarray \<or>
               held m this assd td \<and> owned (m_size td) assd \<inter> owned (m_size t) asso = {})"
  shows "\<exists>m1 ass1 t1.
           r = Return () m1 \<and> heap_ok m1 \<and>
           held m1 this ass1 t1 \<and> stores m1 other asso t \<and>
           owned (m_size t1) ass1 \<inter> owned (m_size t) asso = {} \<and>
           getSize t1 = getSize t \<and> contents t1 = contents t \<and>
           heap_getSize this m1 = heap_getSize other m1 \<and>
           heap_getSize other m1 = heap_getSize other m \<and>
           (\<forall>k. observe (heap_lookup F k this m1) = observe (heap_lookup F k other m1)) \<and>
           (\<forall>k. observe (heap_lookup F k other m1) = observe (heap_lookup F k other m)) \<and>
           (\<forall>ops m2. heap_run F other ops m1 = Some m2 \<longrightarrow>
              (\<forall>k. observe (heap_lookup F k this m2) = observe (heap_lookup F k this m1)) \<and>
              (\<exists>t2. run F ops t = Some t2 \<and>
                 (\<forall>k. observe (heap_lookup F k other m2) = observe (HashMap_lookup F k t2)))) \<and>
           (\<forall>ops m2. heap_run F this ops m1 = Some m2 \<longrightarrow>
              (\<forall>k. observe (heap_lookup F k other m2) = observe (heap_lookup F k other m1)) \<and>
              (\<exists>t2. run F ops t1 = Some t2 \<and>
                 (\<forall>k. observe (heap_lookup F k this m2) = observe (HashMap_lookup F k t2)))) \<and>
           (0 < getSize t \<longrightarrow>
              (\<forall>ops. (\<exists>m2. heap_run F other ops m1 = Some m2) \<and>
                     (\<exists>m2. heap_run F this ops m1 = Some m2)))"
proof (cases "held m other asso t")
  case True
  from copy_held [OF ok True wf n r] obtain m1 ass1 where
    *: "r = Return () m1" "separate m1 this ass1 t other asso t" "tables m1 other = tables m other"
       "\<forall>a\<in>owned (m_size t) asso. cells m1 a = cells m a" by blast
  from *(2) have s': "separate m1 other asso t this ass1 t" by (rule separate_sym)
  from *(2) have ok1: "heap_ok m1" and h1: "held m1 this ass1 t" and h2: "held m1 other asso t"
    and dj: "owned (m_size t) ass1 \<inter> owned (m_size t) asso = {}" by (simp_all add: separate_def)
  from h1 h2 True have r1: "rep (cells m1) (tables m1 this) ass1 t"
    and r2: "rep (cells m1) (tables m1 other) asso t" and r0: "rep (cells m) (tables m other) asso t"
    by (simp_all add: held_def)
  have n': "other \<noteq> this" using n by simp
  have st: "stores m1 other asso t" using h2 by (simp add: stores_def)
  have sz: "heap_getSize this m1 = heap_getSize other m1" "heap_getSize other m1 = heap_getSize other m"
    using r1 r2 r0 by (simp_all add: heap_getSize_def rep_iff)
  have l1: "\<forall>k. observe (heap_lookup F k this m1) = observe (heap_lookup F k other m1)"
    by (simp add: heap_lookup_rep [OF r1] heap_lookup_rep [OF r2])
  have l2: "\<forall>k. observe (heap_lookup F k other m1) = observe (heap_lookup F k other m)"
    by (simp add: heap_lookup_rep [OF r0] heap_lookup_rep [OF r2])
  have ind: "(\<forall>k. observe (heap_lookup F k y m2) = observe (heap_lookup F k y m1)) \<and>
      (\<exists>t2. run F ops t = Some t2 \<and>
         (\<forall>k. observe (heap_lookup F k x m2) = observe (HashMap_lookup F k t2)))"
    if s: "separate m1 x assx t y assy t" and d: "x \<noteq> y" and hr: "heap_run F x ops m1 = Some m2"
    for x y assx assy ops m2
  proof -
    from heap_run_separate [OF s d, of F ops] hr obtain assx' tx' where
      q: "run F ops t = Some tx'" "separate m2 x assx' tx' y assy t" by auto
    then have "rep (cells m2) (tables m2 x) assx' tx'" by (simp add: separate_def held_def)
    then have "\<forall>k. observe (heap_lookup F k x m2) = observe (HashMap_lookup F k tx')"
      by (simp add: heap_lookup_rep)
    with q(1) separate_independent [OF s d hr] show ?thesis by simp
  qed
  have i1: "\<forall>ops m2. heap_run F other ops m1 = Some m2 \<longrightarrow>
      (\<forall>k. observe (heap_lookup F k this m2) = observe (heap_lookup F k this m1)) \<and>
      (\<exists>t2. run F ops t = Some t2 \<and>
         (\<forall>k. observe (heap_lookup F k other m2) = observe (HashMap_lookup F k t2)))"
    using ind [OF s' n'] by blast
  have i2: "\<forall>ops m2. heap_run F this ops m1 = Some m2 \<longrightarrow>
      (\<forall>k. observe (heap_lookup F k other m2) = observe (heap_lookup F k other m1)) \<and>
      (\<exists>t2. run F ops t = Some t2 \<and>
         (\<forall>k. observe (heap_lookup F k this m2) = observe (HashMap_lookup F k t2)))"
    using ind [OF *(2) n] by blast
  have tot: "0 < getSize t \<longrightarrow>
      (\<forall>ops. (\<exists>m2. heap_run F other ops m1 = Some m2) \<and> (\<exists>m2. heap_run F this ops m1 = Some m2))"
    using separate_run_returns [OF s' n'] separate_run_returns [OF *(2) n]
    by (simp add: getSize_def)
  show ?thesis
    apply (intro exI [of _ m1] exI [of _ ass1] exI [of _ t])
    using *(1) ok1 h1 st dj sz l1 l2 i1 i2 tot by simp
next
  case False
  with src have d: "tables m other = heap_HashMap_default" and t: "t = HashMap_default"
    by (simp_all add: stores_def)
  from r have r': "r = heap_copy_construct F this other m \<or>
      r = heap_copy_assign F this other m \<and> (t_table (tables m this) = nullarray \<or> held m this assd td)"
    by blast
  let ?t1 = "allocateTableAndMutexes 0 :: ('a, 'b) HashMap"
  from copy_default [OF ok d n r'] obtain m1 where
    *: "r = Return () m1" "heap_ok m1" "tables m1 other = tables m other"
       "held m1 this (\<lambda>i. []) ?t1" by blast
  have z: "m_size t = 0" "m_size ?t1 = 0"
    by (simp_all add: t HashMap_default_def allocateTableAndMutexes_def)
  have r1: "rep (cells m1) (tables m1 this) (\<lambda>i. []) ?t1" using *(4) by (simp add: held_def)
  then have z1: "t_size (tables m1 this) = 0" using z(2) by (simp add: rep_iff)
  have z2: "t_size (tables m1 other) = 0" "t_size (tables m other) = 0"
    using d *(3) by (simp_all add: heap_HashMap_default_def)
  have st: "stores m1 other asso t" using d *(3) t by (simp add: stores_def)
  have dj: "owned (m_size ?t1) (\<lambda>i. []) \<inter> owned (m_size t) asso = {}" by (simp add: owned_empty)
  have gs: "getSize ?t1 = getSize t" "contents ?t1 = contents t"
    using z by (simp_all add: getSize_def contents_size0)
  have sz: "heap_getSize this m1 = heap_getSize other m1" "heap_getSize other m1 = heap_getSize other m"
    using z1 z2 by (simp_all add: heap_getSize_def)
  have l1: "\<forall>k. observe (heap_lookup F k this m1) = observe (heap_lookup F k other m1)"
    using z1 z2 by (simp add: heap_lookup_size0)
  have l2: "\<forall>k. observe (heap_lookup F k other m1) = observe (heap_lookup F k other m)"
    using z2 by (simp add: heap_lookup_size0)
  have u: "HashMap_lookup F k t' = Undefined" if "m_size t' = 0" for k and t' :: "('a, 'b) HashMap"
    using that by (simp add: HashMap_lookup_def bucket_def hash_def)
  have ind: "(\<forall>k. observe (heap_lookup F k y m2) = observe (heap_lookup F k y m1)) \<and>
      (\<exists>t2. run F ops t' = Some t2 \<and>
         (\<forall>k. observe (heap_lookup F k x m2) = observe (HashMap_lookup F k t2)))"
    if "t_size (tables m1 x) = 0" "m_size t' = 0" "heap_run F x ops m1 = Some m2"
    for x y ops m2 and t' :: "('a, 'b) HashMap"
  proof -
    from heap_run_size0 [OF that(1,3)] have e: "m2 = m1" .
    have o: "ops = []"
    proof (cases ops)
      case (Cons ope ops')
      from that(1) have "heap_apply_op F ope x m1 = Undefined"
        by (cases ope) (simp_all add: heap_insert_def heap_remove_def heap_bucket_size0)
      with that(3) Cons show ?thesis by simp
    qed simp
    show ?thesis unfolding e o using that(1,2) by (simp add: heap_lookup_size0 u observe_def)
  qed
  have i1: "\<forall>ops m2. heap_run F other ops m1 = Some m2 \<longrightarrow>
      (\<forall>k. observe (heap_lookup F k this m2) = observe (heap_lookup F k this m1)) \<and>
      (\<exists>t2. run F ops t = Some t2 \<and>
         (\<forall>k. observe (heap_lookup F k other m2) = observe (HashMap_lookup F k t2)))"
    using ind [OF z2(1) z(1)] by blast
  have i2: "\<forall>ops m2. heap_run F this ops m1 = Some m2 \<longrightarrow>
      (\<forall>k. observe (heap_lookup F k other m2) = observe (heap_lookup F k other m1)) \<and>
      (\<exists>t2. run F ops ?t1 = Some t2 \<and>
         (\<forall>k. observe (heap_lookup F k this m2) = observe (HashMap_lookup F k t2)))"
    using ind [OF z1 z(2)] by blast
  have tot: "0 < getSize t \<longrightarrow>
      (\<forall>ops. (\<exists>m2. heap_run F other ops m1 = Some m2) \<and> (\<exists>m2. heap_run F this ops m1 = Some m2))"
    using z by (simp add: getSize_def)
  show ?thesis
    apply (intro exI [of _ m1] exI [of _ "\<lambda>i. []"] exI [of _ ?t1])
    using *(1,2,4) st dj gs sz l1 l2 i1 i2 tot by simp
qed

theorem C8_copy_independent_witness:
  "(\<exists>m1. heap_copy_construct (\<lambda>k. k) 0 1 example_memory = Return () m1 \<and>
      heap_getSize 0 m1 = 2 \<and>
      observe (heap_lookup (\<lambda>k. k) 2 0 m1) = Return ''two'' () \<and>
      (\<exists>m2. heap_run (\<lambda>k. k) 1 [Remove 2] m1 = Some m2 \<and>
         observe (heap_lookup (\<lambda>k. k) 2 0 m2) = Return ''two'' () \<and>
         observe (heap_lookup (\<lambda>k. k) 2 1 m2) = Throw out_of_range ())) \<and>
   (\<exists>m1. heap_copy_assign (\<lambda>k. k) 2 1 example_memory = Return () m1 \<and>
      heap_getSize 2 m1 = 2 \<and>
      observe (heap_lookup (\<lambda>k. k) 0 2 m1) = Return ''zero'' ())"
proof -
  let ?F = "\<lambda>k::nat. k"
  have ok: "heap_ok example_memory" by (rule example_memory_ok)
  have h: "held example_memory 1 example_addresses example_table" by (rule example_memory_held)
  then have src: "stores example_memory 1 example_addresses example_table" by (simp add: stores_def)
  have wf: "well_formed ?F example_table" by code_simp
  have g: "heap_getSize 1 example_memory = 2" by (simp add: heap_getSize_def example_memory_def)
  have p: "0 < getSize example_table" by (simp add: getSize_def example_table_def)
  from h have rp: "rep (cells example_memory) (tables example_memory 1) example_addresses example_table"
    by (simp add: held_def)
  have lk: "observe (heap_lookup ?F 2 1 example_memory) = Return ''two'' ()"
    "observe (heap_lookup ?F 0 1 example_memory) = Return ''zero'' ()"
    unfolding heap_lookup_rep [OF rp] by code_simp+
  have rr: "map_option (\<lambda>t2. observe (HashMap_lookup ?F 2 t2)) (run ?F [Remove 2] example_table) =
      Some (Throw out_of_range ())"
    by code_simp
  have first: "\<exists>m1. heap_copy_construct ?F 0 1 example_memory = Return () m1 \<and>
      heap_getSize 0 m1 = 2 \<and>
      observe (heap_lookup ?F 2 0 m1) = Return ''two'' () \<and>
      (\<exists>m2. heap_run ?F 1 [Remove 2] m1 = Some m2 \<and>
         observe (heap_lookup ?F 2 0 m2) = Return ''two'' () \<and>
         observe (heap_lookup ?F 2 1 m2) = Throw out_of_range ())"
  proof -
    have n: "(0::nat) \<noteq> 1" by simp
    let ?r = "heap_copy_construct ?F 0 1 example_memory"
    have r: "?r = heap_copy_construct ?F 0 1 example_memory \<or>
        ?r = heap_copy_assign ?F 0 1 example_memory \<and>
          (t_table (tables example_memory 0) = nullarray \<or>
           held example_memory 0 (\<lambda>i. []) nought_table \<and>
           owned (m_size nought_table) (\<lambda>i. []) \<inter> owned (m_size example_table) example_addresses = {})"
      by simp
    from C8_copy_independent [where this = 0 and other = 1 and m = example_memory and asso = example_addresses
        and t = example_table and F = ?F and r = ?r and assd = "\<lambda>i. []" and td = nought_table,
        OF n ok src wf r]
    obtain m1 where
      *: "?r = Return () m1" "heap_getSize 0 m1 = heap_getSize 1 m1"
         "heap_getSize 1 m1 = heap_getSize 1 example_memory"
         "\<forall>k. observe (heap_lookup ?F k 0 m1) = observe (heap_lookup ?F k 1 m1)"
         "\<forall>k. observe (heap_lookup ?F k 1 m1) = observe (heap_lookup ?F k 1 example_memory)"
         "\<forall>ops m2. heap_run ?F 1 ops m1 = Some m2 \<longrightarrow>
            (\<forall>k. observe (heap_lookup ?F k 0 m2) = observe (heap_lookup ?F k 0 m1)) \<and>
            (\<exists>t2. run ?F ops example_table = Some t2 \<and>
               (\<forall>k. observe (heap_lookup ?F k 1 m2) = observe (HashMap_lookup ?F k t2)))"
         "0 < getSize example_table \<longrightarrow>
            (\<forall>ops. (\<exists>m2. heap_run ?F 1 ops m1 = Some m2) \<and> (\<exists>m2. heap_run ?F 0 ops m1 = Some m2))"
      by (elim exE conjE) (rule that)
    have a: "heap_getSize 0 m1 = 2" using *(2,3) g by simp
    have b: "observe (heap_lookup ?F 2 0 m1) = Return ''two'' ()" using *(4,5) lk(1) by simp
    from *(7) p obtain m2 where m2: "heap_run ?F 1 [Remove 2] m1 = Some m2" by blast
    from *(6) m2 obtain t2 where
      t2: "\<forall>k. observe (heap_lookup ?F k 0 m2) = observe (heap_lookup ?F k 0 m1)"
        "run ?F [Remove 2] example_table = Some t2"
        "\<forall>k. observe (heap_lookup ?F k 1 m2) = observe (HashMap_lookup ?F k t2)" by blast
    have c: "observe (heap_lookup ?F 2 0 m2) = Return ''two'' ()" using t2(1) b by simp
    have d: "observe (heap_lookup ?F 2 1 m2) = Throw out_of_range ()" using t2(3) rr unfolding t2(2) by simp
    from *(1) a b m2 c d show ?thesis by blast
  qed
  have second: "\<exists>m1. heap_copy_assign ?F 2 1 example_memory = Return () m1 \<and>
      heap_getSize 2 m1 = 2 \<and> observe (heap_lookup ?F 0 2 m1) = Return ''zero'' ()"
  proof -
    have n: "(2::nat) \<noteq> 1" by simp
    let ?r = "heap_copy_assign ?F 2 1 example_memory"
    have dj: "owned (m_size nought_table) (\<lambda>i. [3]) \<inter> owned (m_size example_table) example_addresses = {}"
      by (simp add: owned_def nought_table_def example_table_def example_addresses_def upt_rec numeral_2_eq_2)
    have r: "?r = heap_copy_construct ?F 2 1 example_memory \<or>
        ?r = heap_copy_assign ?F 2 1 example_memory \<and>
          (t_table (tables example_memory 2) = nullarray \<or>
           held example_memory 2 (\<lambda>i. [3]) nought_table \<and>
           owned (m_size nought_table) (\<lambda>i. [3]) \<inter> owned (m_size example_table) example_addresses = {})"
      using example_memory_held_2 dj by simp
    from C8_copy_independent [where this = 2 and other = 1 and m = example_memory and asso = example_addresses
        and t = example_table and F = ?F and r = ?r and assd = "\<lambda>i. [3]" and td = nought_table,
        OF n ok src wf r]
    obtain m1 where
      *: "?r = Return () m1" "heap_getSize 2 m1 = heap_getSize 1 m1"
         "heap_getSize 1 m1 = heap_getSize 1 example_memory"
         "\<forall>k. observe (heap_lookup ?F k 2 m1) = observe (heap_lookup ?F k 1 m1)"
         "\<forall>k. observe (heap_lookup ?F k 1 m1) = observe (heap_lookup ?F k 1 example_memory)"
      by (elim exE conjE) (rule that)
    have a: "heap_getSize 2 m1 = 2" using *(2,3) g by simp
    have b: "observe (heap_lookup ?F 0 2 m1) = Return ''zero'' ()" using *(4,5) lk(2) by simp
    from *(1) a b show ?thesis by blast
  qed
  from first second show ?thesis by (rule conjI)
qed

text \<open>
  C9. The claim is that a traversal from \<open>begin()\<close> (or \<open>first()\<close>) to the end visits every
  stored pair exactly once, in bucket order. The code fails it for \<open>begin()\<close>: the
  iterator that \<open>begin()\<close> returns points into the first non-empty bucket but carries the
  bucket index \<open>0\<close>, so that after the chain of that bucket the scan for the next
  non-empty bucket starts at index \<open>1\<close> and finds the same bucket again. On the table of
  capacity 2 whose only entry is in bucket 1, the traversal visits that entry twice.
\<close>

theorem C9_begin_visits_twice:
  "HashMap_insert (\<lambda>k. k) 1 ''one'' (HashMap_sized 2) = Return () second_bucket_table \<and>
   contents second_bucket_table = [(1, ''one'')] \<and>
   HashMap_begin second_bucket_table = Some \<lparr>i_curr = Element 1 ''one'' nullptr, i_idx = 0\<rparr> \<and>
   visit_all second_bucket_table \<lparr>i_curr = Element 1 ''one'' nullptr, i_idx = 0\<rparr> =
     Some [(1, ''one''), (1, ''one'')]"
  by code_simp

text \<open>
  C10. Advancing a cursor whose current element is \<^verbatim>\<open>nullptr\<close> leaves the cursor as it
  is, still at the end; this holds for \<^verbatim>\<open>HashMapIter::next\<close> and for
  \<^verbatim>\<open>HashMap::Iterator::next\<close>.
\<close>

theorem C10_next_at_end:
  assumes "i_curr it = nullptr"
  shows "HashMapIter_next t it = Some it \<and> Iterator_next t it = Some it \<and> isEnd it"
  using assms by (simp add: HashMapIter_next_def Iterator_next_def isEnd_def)

theorem C10_next_at_end_witness:
  "HashMapIter_next example_table (HashMap_end example_table) = Some (HashMap_end example_table) \<and>
   Iterator_next example_table (HashMap_end example_table) = Some (HashMap_end example_table) \<and>
   isEnd (HashMap_end example_table)"
proof -
  have "i_curr (HashMap_end example_table) = nullptr" by (simp add: HashMap_end_def)
  then show ?thesis by (rule C10_next_at_end)
qed

end
